theory Spec2Isabelle
  imports Complex_Main "HOL-Library.Word"
begin

section \<open>Go strings\<close>

text \<open>
  A Go string is a sequence of bytes, so it is modelled as a \<open>string\<close> (a list of 8-bit
  characters). The functions of package \<open>strings\<close> that the program calls are written out
  below. The input of the program (game logs and map files) is ASCII text; bytes above
  0x7F are treated as ordinary characters that are neither white space nor letters.
\<close>

definition HasPrefix :: "string \<Rightarrow> string \<Rightarrow> bool" where
  "HasPrefix s p = (take (length p) s = p)"

definition HasSuffix :: "string \<Rightarrow> string \<Rightarrow> bool" where
  "HasSuffix s suf = (length suf \<le> length s \<and> drop (length s - length suf) s = suf)"

fun Contains :: "string \<Rightarrow> string \<Rightarrow> bool" where
  "Contains [] sub = (sub = [])"
| "Contains (c # s) sub = (HasPrefix (c # s) sub \<or> Contains s sub)"

definition isSpace :: "char \<Rightarrow> bool" where
  "isSpace c = (c = CHR 0x09 \<or> c = CHR 0x0A \<or> c = CHR 0x0B \<or> c = CHR 0x0C
                \<or> c = CHR 0x0D \<or> c = CHR '' '')"

definition TrimSpace :: "string \<Rightarrow> string" where
  "TrimSpace s = rev (dropWhile isSpace (rev (dropWhile isSpace s)))"

text \<open>
  \<open>strconv.Atoi\<close> on a 64-bit platform: an optional sign and at least one decimal digit.
  A syntax error yields 0 and an out-of-range literal yields the nearest bound of
  \<open>int64\<close>; the callers drop the error. \<open>parseDigits\<close> is the loop of
  \<open>strconv.ParseUint\<close>: it stops with a syntax error at the first byte that is not a
  digit, and with the largest \<open>uint64\<close> at the first digit that overflows 64 bits.
\<close>

fun digitVal :: "char \<Rightarrow> int option" where
  "digitVal c =
     (if (48::int) \<le> of_char c \<and> of_char c \<le> (57::int) then Some (of_char c - 48) else None)"

fun parseDigits :: "int \<Rightarrow> string \<Rightarrow> int option" where
  "parseDigits n [] = Some n"
| "parseDigits n (c # s) =
     (case digitVal c of
        None \<Rightarrow> None
      | Some d \<Rightarrow>
          if n \<ge> 1844674407370955162 \<or> n * 10 + d > 18446744073709551615
          then Some 18446744073709551615
          else parseDigits (n * 10 + d) s)"

definition Atoi :: "string \<Rightarrow> int" where
  "Atoi s0 =
     (let neg = (s0 \<noteq> [] \<and> hd s0 = CHR ''-'');
          s = (if s0 \<noteq> [] \<and> (hd s0 = CHR ''-'' \<or> hd s0 = CHR ''+'') then tl s0 else s0)
      in if s = [] then 0
         else case parseDigits 0 s of
                None \<Rightarrow> 0
              | Some un \<Rightarrow>
                  if \<not> neg \<and> un \<ge> 2 ^ 63 then 2 ^ 63 - 1
                  else if neg \<and> un > 2 ^ 63 then - (2 ^ 63)
                  else if neg then - un else un)"

text \<open>
  \<open>strings.ReplaceAll\<close> for a non-empty \<open>old\<close> (the program only passes the byte order
  mark and the underscore), \<open>strings.TrimLeft\<close>, \<open>strings.Split\<close> on a one-byte separator,
  \<open>strings.Join\<close>, \<open>strings.ToLower\<close> and \<open>unicode.ToUpper\<close> on ASCII, and
  \<open>filepath.Base\<close> with the separator \<open>/\<close>.
\<close>

function ReplaceAll :: "string \<Rightarrow> string \<Rightarrow> string \<Rightarrow> string" where
  "ReplaceAll [] old new = []"
| "ReplaceAll (c # s) old new =
     (if old \<noteq> [] \<and> HasPrefix (c # s) old
      then new @ ReplaceAll (drop (length old) (c # s)) old new
      else c # ReplaceAll s old new)"
  by pat_completeness auto
termination
  by (relation "measure (\<lambda>(s, old, new). length s)") (auto simp: neq_Nil_conv)

definition TrimLeft :: "string \<Rightarrow> string \<Rightarrow> string" where
  "TrimLeft s cutset = dropWhile (\<lambda>c. c \<in> set cutset) s"

fun Split :: "string \<Rightarrow> char \<Rightarrow> string list" where
  "Split [] sep = [] # []"
| "Split (c # s) sep =
     (if c = sep then [] # Split s sep
      else (case Split s sep of [] \<Rightarrow> [c] # [] | w # ws \<Rightarrow> (c # w) # ws))"

fun Join :: "string list \<Rightarrow> string \<Rightarrow> string" where
  "Join [] sep = []"
| "Join [w] sep = w"
| "Join (w # ws) sep = w @ sep @ Join ws sep"

definition lowerChar :: "char \<Rightarrow> char" where
  "lowerChar c =
     (case map_of (zip ''ABCDEFGHIJKLMNOPQRSTUVWXYZ'' ''abcdefghijklmnopqrstuvwxyz'') c of
        Some l \<Rightarrow> l | None \<Rightarrow> c)"

definition ToLower :: "string \<Rightarrow> string" where
  "ToLower s = map lowerChar s"

definition ToUpper :: "char \<Rightarrow> char" where
  "ToUpper c =
     (case map_of (zip ''abcdefghijklmnopqrstuvwxyz'' ''ABCDEFGHIJKLMNOPQRSTUVWXYZ'') c of
        Some u \<Rightarrow> u | None \<Rightarrow> c)"

definition Base :: "string \<Rightarrow> string" where
  "Base path =
     (if path = [] then ''.''
      else (let p = rev (dropWhile (\<lambda>c. c = CHR ''/'') (rev path));
                b = rev (takeWhile (\<lambda>c. c \<noteq> CHR ''/'') (rev p))
            in if b = [] then ''/'' else b))"

section \<open>The Zone Map Loader (package maps)\<close>

subsection \<open>Floats, as far as the loader looks at them\<close>

text \<open>
  The loader parses floats, stores them and compares them with \<open><\<close> and \<open>>\<close>. A
  \<open>float64\<close> is either not a number or a value of a linearly ordered type \<open>'a\<close> (the
  finite values and the two infinities, with both zeros identified, as the comparisons
  do). A comparison with \<open>NaN\<close> is false. \<open>strconv.ParseFloat\<close> is not part of the
  repository; it is the parameter \<open>pf\<close> of the functions that parse.
\<close>

datatype 'a float64 = NaN | Num 'a

fun flt :: "('a::linorder) float64 \<Rightarrow> 'a float64 \<Rightarrow> bool" where
  "flt (Num a) (Num b) = (a < b)"
| "flt _ _ = False"

fun fle :: "('a::linorder) float64 \<Rightarrow> 'a float64 \<Rightarrow> bool" where
  "fle (Num a) (Num b) = (a \<le> b)"
| "fle _ _ = False"

subsection \<open>Geometry types\<close>

text \<open>\<open>color.RGBA\<close>: four values of type \<open>uint8\<close>.\<close>

record RGBA =
  R :: "8 word"
  G :: "8 word"
  B :: "8 word"
  A :: "8 word"

record 'a MapLabel =
  X :: "'a float64"
  Y :: "'a float64"
  Z :: "'a float64"
  Color :: RGBA
  Size :: int
  Text :: string

record 'a MapLine =
  X1 :: "'a float64"
  Y1 :: "'a float64"
  Z1 :: "'a float64"
  X2 :: "'a float64"
  Y2 :: "'a float64"
  Z2 :: "'a float64"
  Color :: RGBA

record 'a ZoneMap =
  Name :: string
  Lines :: "'a MapLine list"
  Labels :: "'a MapLabel list"
  MinX :: "'a float64"
  MaxX :: "'a float64"
  MinY :: "'a float64"
  MaxY :: "'a float64"

subsection \<open>Parsing one file\<close>

definition parseFloat :: "(string \<Rightarrow> 'a float64) \<Rightarrow> string \<Rightarrow> 'a float64" where
  "parseFloat pf s = pf (TrimSpace s)"

definition parseInt :: "string \<Rightarrow> int" where
  "parseInt s = Atoi (TrimSpace s)"

text \<open>The conversion \<open>uint8(ri)\<close> keeps the low eight bits of \<open>ri\<close>.\<close>

definition parseColor :: "string \<Rightarrow> string \<Rightarrow> string \<Rightarrow> RGBA" where
  "parseColor r g b =
     (let ri = parseInt r; gi = parseInt g; bi = parseInt b
      in if ri = 0 \<and> gi = 0 \<and> bi = 0 then \<lparr>R = 130, G = 130, B = 130, A = 255\<rparr>
         else \<lparr>R = word_of_int ri, G = word_of_int gi, B = word_of_int bi, A = 255\<rparr>)"

definition updateBounds ::
  "('a::linorder) ZoneMap \<Rightarrow> 'a float64 \<Rightarrow> 'a float64 \<Rightarrow> 'a ZoneMap" where
  "updateBounds zm x y =
     (let zm1 = (if flt x (MinX zm) then zm\<lparr>MinX := x\<rparr> else zm);
          zm2 = (if flt (MaxX zm1) x then zm1\<lparr>MaxX := x\<rparr> else zm1);
          zm3 = (if flt y (MinY zm2) then zm2\<lparr>MinY := y\<rparr> else zm2);
          zm4 = (if flt (MaxY zm3) y then zm3\<lparr>MaxY := y\<rparr> else zm3)
      in zm4)"

text \<open>
  The search for the command letter: the index and the upper-case form of the first
  \<open>L\<close> or \<open>P\<close> of the line, in either case.
\<close>

fun findCmd :: "string \<Rightarrow> nat \<Rightarrow> (nat \<times> char) option" where
  "findCmd [] i = None"
| "findCmd (r # s) i =
     (if ToUpper r = CHR ''L'' \<or> ToUpper r = CHR ''P'' then Some (i, ToUpper r)
      else findCmd s (Suc i))"

definition BOM :: string where
  "BOM = [CHR 0xEF, CHR 0xBB, CHR 0xBF]"

text \<open>
  The struct literals of \<open>parseFile\<close>: the segment and the label built from the fields
  of a line that has enough of them.
\<close>

definition makeLine :: "(string \<Rightarrow> 'a float64) \<Rightarrow> string list \<Rightarrow> 'a MapLine" where
  "makeLine pf parts =
     \<lparr>X1 = parseFloat pf (parts ! 0), Y1 = parseFloat pf (parts ! 1),
      Z1 = parseFloat pf (parts ! 2),
      X2 = parseFloat pf (parts ! 3), Y2 = parseFloat pf (parts ! 4),
      Z2 = parseFloat pf (parts ! 5),
      Color = (if length parts \<ge> 9 then parseColor (parts ! 6) (parts ! 7) (parts ! 8)
               else \<lparr>R = 150, G = 150, B = 150, A = 255\<rparr>)\<rparr>"

definition makeLabel :: "(string \<Rightarrow> 'a float64) \<Rightarrow> string list \<Rightarrow> 'a MapLabel" where
  "makeLabel pf parts =
     \<lparr>X = parseFloat pf (parts ! 0), Y = parseFloat pf (parts ! 1),
      Z = parseFloat pf (parts ! 2),
      Color = parseColor (parts ! 3) (parts ! 4) (parts ! 5),
      Size = parseInt (parts ! 6),
      Text = (if length parts \<ge> 8
              then ReplaceAll (TrimSpace (Join (drop 7 parts) '','')) ''_'' '' ''
              else [])\<rparr>"

text \<open>
  One iteration of the loop of \<open>parseFile\<close>: the zone map and the count of items before
  the line, and after it.
\<close>

definition parseStep ::
  "(string \<Rightarrow> 'a float64) \<Rightarrow> ('a::linorder) ZoneMap \<times> nat \<Rightarrow> string \<Rightarrow> 'a ZoneMap \<times> nat" where
  "parseStep pf st rawLine =
     (let zm = fst st; count = snd st;
          line = TrimSpace (ReplaceAll rawLine BOM [])
      in if line = [] then st
         else case findCmd line 0 of
           None \<Rightarrow> st
         | Some (cmdIndex, cmdType) \<Rightarrow>
             (let content = TrimLeft (drop (cmdIndex + 1) line) '' ,'';
                  parts = Split content CHR '',''
              in if cmdType = CHR ''L'' then
                   (if length parts \<ge> 6 then
                      (let l = makeLine pf parts;
                           zm1 = zm\<lparr>Lines := Lines zm @ [l]\<rparr>;
                           zm2 = updateBounds zm1 (X1 l) (Y1 l);
                           zm3 = updateBounds zm2 (X2 l) (Y2 l)
                       in (zm3, count + 1))
                    else st)
                 else if cmdType = CHR ''P'' then
                   (if length parts \<ge> 7 then
                      (let p = makeLabel pf parts
                       in (zm\<lparr>Labels := Labels zm @ [p]\<rparr>, count + 1))
                    else st)
                 else st))"

text \<open>
  The file system as the loader sees it: \<open>ListDir dir\<close> is the result of
  \<open>filepath.Glob(filepath.Join(dir, "*"))\<close>, \<open>None\<close> when the pattern is malformed, and
  \<open>Open path\<close> is the sequence of lines that the scanner yields for the file, \<open>None\<close> when
  \<open>os.Open\<close> fails.
\<close>

record FileSystem =
  ListDir :: "string \<Rightarrow> string list option"
  Open :: "string \<Rightarrow> string list option"

datatype error = CouldNotList | NoMapFiles string | OpenFailed

definition parseFile ::
  "(string \<Rightarrow> 'a float64) \<Rightarrow> FileSystem \<Rightarrow> ('a::linorder) ZoneMap \<Rightarrow> string
     \<Rightarrow> 'a ZoneMap \<times> (error + nat)" where
  "parseFile pf fs zm path =
     (case Open fs path of
        None \<Rightarrow> (zm, Inl OpenFailed)
      | Some rawLines \<Rightarrow>
          (let st = foldl (parseStep pf) (zm, 0) rawLines in (fst st, Inr (snd st))))"

subsection \<open>Loading a zone\<close>

definition fileMap :: "string list \<Rightarrow> (string \<rightharpoonup> string)" where
  "fileMap allFiles = foldl (\<lambda>m path. m(ToLower (Base path) \<mapsto> path)) Map.empty allFiles"

definition targets :: "string \<Rightarrow> string list" where
  "targets zoneName =
     [ToLower (zoneName @ ''.txt''), ToLower (zoneName @ ''_1.txt''),
      ToLower (zoneName @ ''_2.txt''), ToLower (zoneName @ ''_3.txt'')]"

definition loadTarget ::
  "(string \<Rightarrow> 'a float64) \<Rightarrow> FileSystem \<Rightarrow> (string \<rightharpoonup> string) \<Rightarrow> ('a::linorder) ZoneMap \<times> bool
     \<Rightarrow> string \<Rightarrow> 'a ZoneMap \<times> bool" where
  "loadTarget pf fs fm st target =
     (case fm target of
        None \<Rightarrow> st
      | Some realPath \<Rightarrow>
          (case parseFile pf fs (fst st) realPath of
             (zm, Inr itemsAdded) \<Rightarrow> if itemsAdded > 0 then (zm, True) else (zm, snd st)
           | (zm, Inl err) \<Rightarrow> (zm, snd st)))"

definition newZoneMap :: "string \<Rightarrow> ('a::{linorder,numeral,uminus}) ZoneMap" where
  "newZoneMap zoneName =
     \<lparr>Name = zoneName, Lines = [], Labels = [],
      MinX = Num 99999, MaxX = Num (- 99999), MinY = Num 99999, MaxY = Num (- 99999)\<rparr>"

definition LoadZone ::
  "(string \<Rightarrow> 'a float64) \<Rightarrow> FileSystem \<Rightarrow> string \<Rightarrow> string
     \<Rightarrow> error + ('a::{linorder,numeral,uminus}) ZoneMap" where
  "LoadZone pf fs mapDir zoneName =
     (case ListDir fs mapDir of
        None \<Rightarrow> Inl CouldNotList
      | Some allFiles \<Rightarrow>
          (let st = foldl (loadTarget pf fs (fileMap allFiles)) (newZoneMap zoneName, False)
                      (targets zoneName)
           in if \<not> snd st then Inl (NoMapFiles zoneName) else Inr (fst st)))"

section \<open>The two regular expressions\<close>

text \<open>
  Both patterns of the program are a sequence of literal pieces and capturing groups of
  the form \<open>(c+)\<close> for a character class \<open>c\<close>. Package \<open>regexp\<close> returns the match a
  backtracking matcher finds first: the leftmost start, and for each greedy \<open>+\<close> the
  longest repetition that lets the rest of the pattern match. \<open>match_toks\<close> is that
  matcher anchored at the head of the string; it returns the length of the match and the
  captured groups. \<open>FindStringSubmatch\<close> tries every start from the left and returns the
  whole match followed by the groups, or the empty list (Go's nil) when nothing matches.
\<close>

datatype tok = Lit string | Cap "char \<Rightarrow> bool"

fun first_len :: "(nat \<Rightarrow> 'a option) \<Rightarrow> nat \<Rightarrow> 'a option" where
  "first_len f 0 = None"
| "first_len f (Suc k) = (case f (Suc k) of Some r \<Rightarrow> Some r | None \<Rightarrow> first_len f k)"

fun match_toks :: "tok list \<Rightarrow> string \<Rightarrow> (nat \<times> string list) option" where
  "match_toks [] s = Some (0, [])"
| "match_toks (Lit l # ts) s =
     (if HasPrefix s l
      then map_option (\<lambda>(n, gs). (length l + n, gs)) (match_toks ts (drop (length l) s))
      else None)"
| "match_toks (Cap p # ts) s =
     first_len (\<lambda>k. map_option (\<lambda>(n, gs). (k + n, take k s # gs)) (match_toks ts (drop k s)))
       (length (takeWhile p s))"

fun FindStringSubmatch :: "tok list \<Rightarrow> string \<Rightarrow> string list" where
  "FindStringSubmatch re [] =
     (case match_toks re [] of Some (n, gs) \<Rightarrow> [] # gs | None \<Rightarrow> [])"
| "FindStringSubmatch re (c # s) =
     (case match_toks re (c # s) of
        Some (n, gs) \<Rightarrow> take n (c # s) # gs
      | None \<Rightarrow> FindStringSubmatch re s)"

definition numChar :: "char \<Rightarrow> bool" where
  "numChar c = (c \<in> set ''0123456789.-'')"

definition notNewline :: "char \<Rightarrow> bool" where
  "notNewline c = (c \<noteq> CHR 0x0A)"

text \<open>\<^verbatim>\<open>Your Location is ([0-9.-]+), ([0-9.-]+), ([0-9.-]+)\<close>\<close>

definition locRegex :: "tok list" where
  "locRegex = [Lit ''Your Location is '', Cap numChar, Lit '', '', Cap numChar,
               Lit '', '', Cap numChar]"

text \<open>\<^verbatim>\<open>You have entered (.+)\.\<close>\<close>

definition zoneRegex :: "tok list" where
  "zoneRegex = [Lit ''You have entered '', Cap notNewline, Lit ''.'']"

section \<open>The State Engine (package parser)\<close>

text \<open>
  This section follows \<open>internal/parser/parser.go\<close> in its latest revision, the one whose
  \<open>PlayerState\<close> has the field \<open>CorpseZone\<close> and whose rules end with \<open>continue\<close>.

  The engine works on \<open>float64\<close> values: it parses them, negates and subtracts them,
  compares an absolute value with the constant 0.1 and calls \<open>math.Atan2\<close>. None of
  these operations is defined in the repository, so the type of floats \<open>'f\<close> and the
  operations are parameters of the model, collected in a record. Every theorem about the
  engine holds for all interpretations of the record, IEEE 754 arithmetic included.
\<close>

record 'f float_ops =
  ParseFloat :: "string \<Rightarrow> 'f"   \<comment> \<open>the value of \<open>strconv.ParseFloat(s, 64)\<close>, its error dropped\<close>
  fzero :: "'f"                   \<comment> \<open>the zero value of \<open>float64\<close>\<close>
  fneg :: "'f \<Rightarrow> 'f"              \<comment> \<open>unary minus\<close>
  fsub :: "'f \<Rightarrow> 'f \<Rightarrow> 'f"         \<comment> \<open>binary minus\<close>
  Abs :: "'f \<Rightarrow> 'f"               \<comment> \<open>\<open>math.Abs\<close>\<close>
  fgt :: "'f \<Rightarrow> 'f \<Rightarrow> bool"        \<comment> \<open>the comparison \<open>>\<close>\<close>
  tenth :: "'f"                   \<comment> \<open>the constant \<open>0.1\<close>\<close>
  Atan2 :: "'f \<Rightarrow> 'f \<Rightarrow> 'f"        \<comment> \<open>\<open>math.Atan2\<close>\<close>

record 'f PlayerState =
  X :: "'f"
  Y :: "'f"
  Z :: "'f"
  Heading :: "'f"
  Zone :: string
  CorpseX :: "'f"
  CorpseY :: "'f"
  CorpseZone :: string
  HasCorpse :: bool

text \<open>
  \<open>Engine\<close> is the struct of the source. \<open>ProcessLines\<close> declares three local variables
  before its loop; the state of the loop is the engine extended with them.
\<close>

record 'f Engine =
  CurrentState :: "'f PlayerState"

record 'f loop = "'f Engine" +
  lastX :: "'f"
  lastY :: "'f"
  hasMoved :: bool

text \<open>\<open>NewEngine\<close> returns \<open>&Engine{}\<close>: every field has its zero value.\<close>

definition NewEngine :: "'f float_ops \<Rightarrow> 'f Engine" where
  "NewEngine ops =
     \<lparr>CurrentState = \<lparr>X = fzero ops, Y = fzero ops, Z = fzero ops, Heading = fzero ops,
        Zone = [], CorpseX = fzero ops, CorpseY = fzero ops, CorpseZone = [],
        HasCorpse = False\<rparr>\<rparr>"

text \<open>
  The body of the loop has four rules; each of the first three ends the iteration with
  \<open>continue\<close> when it fires. The rules are separate definitions here and \<open>ProcessLine\<close>
  chains them in the order of the source.
\<close>

definition positionRule :: "'f float_ops \<Rightarrow> 'f loop \<Rightarrow> string list \<Rightarrow> 'f loop" where
  "positionRule ops e matches =
     (let eqY = ParseFloat ops (matches ! 1);
          eqX = ParseFloat ops (matches ! 2);
          eqZ = ParseFloat ops (matches ! 3);
          x = fneg ops eqX;
          y = fneg ops eqY;
          e1 = (if \<not> hasMoved e then e\<lparr>hasMoved := True\<rparr>
                else (let dx = fsub ops x (lastX e);
                          dy = fsub ops y (lastY e)
                      in if fgt ops (Abs ops dx) (tenth ops) \<or> fgt ops (Abs ops dy) (tenth ops)
                         then e\<lparr>CurrentState := (CurrentState e)\<lparr>Heading := Atan2 ops dy dx\<rparr>\<rparr>
                         else e))
      in e1\<lparr>CurrentState := (CurrentState e1)\<lparr>X := x, Y := y, Z := eqZ\<rparr>,
            lastX := x, lastY := y\<rparr>)"

definition zoneRule :: "'f loop \<Rightarrow> string list \<Rightarrow> 'f loop" where
  "zoneRule e matches =
     (let newZone = matches ! 1
      in if Contains newZone ''(PvP)'' \<or> HasSuffix newZone '' area'' then e
         else if newZone \<noteq> Zone (CurrentState e)
              then e\<lparr>CurrentState := (CurrentState e)\<lparr>Zone := newZone\<rparr>\<rparr>
              else e)"

definition deathRule :: "'f loop \<Rightarrow> 'f loop" where
  "deathRule e =
     e\<lparr>CurrentState := (CurrentState e)
         \<lparr>CorpseX := X (CurrentState e), CorpseY := Y (CurrentState e),
          CorpseZone := Zone (CurrentState e), HasCorpse := True\<rparr>\<rparr>"

definition isRecovery :: "string \<Rightarrow> bool" where
  "isRecovery line =
     (Contains line ''Summoning'' \<and> Contains line ''corpse''
      \<or> Contains line ''You receive a resurrection''
      \<or> Contains line ''You have been resurrected''
      \<or> Contains line ''corpse decays'')"

definition recoveryRule :: "'f loop \<Rightarrow> 'f loop" where
  "recoveryRule e = e\<lparr>CurrentState := (CurrentState e)\<lparr>HasCorpse := False\<rparr>\<rparr>"

text \<open>One iteration of the loop of \<open>ProcessLines\<close>, on the text of one log line.\<close>

definition ProcessLine :: "'f float_ops \<Rightarrow> 'f loop \<Rightarrow> string \<Rightarrow> 'f loop" where
  "ProcessLine ops e line =
     (if length (FindStringSubmatch locRegex line) = 4
      then positionRule ops e (FindStringSubmatch locRegex line)
      else if length (FindStringSubmatch zoneRegex line) = 2
      then zoneRule e (FindStringSubmatch zoneRegex line)
      else if Contains line ''You have been slain'' then deathRule e
      else if isRecovery line then recoveryRule e
      else e)"

text \<open>
  \<open>ProcessLines\<close> seeds the zone with the reader's \<open>InitialZone\<close> when that is not empty,
  declares its locals and then consumes the lines of the channel one after the other.
  The model returns the state of the loop after the given lines have been consumed; the
  messages the source prints are left out.
\<close>

definition enterLoop :: "'f float_ops \<Rightarrow> string \<Rightarrow> 'f Engine \<Rightarrow> 'f loop" where
  "enterLoop ops initialZone e =
     \<lparr>CurrentState = (if initialZone \<noteq> [] then (CurrentState e)\<lparr>Zone := initialZone\<rparr>
                       else CurrentState e),
      lastX = fzero ops, lastY = fzero ops, hasMoved = False\<rparr>"

definition ProcessLines :: "'f float_ops \<Rightarrow> 'f Engine \<Rightarrow> string \<Rightarrow> string list \<Rightarrow> 'f loop" where
  "ProcessLines ops e initialZone lines =
     foldl (ProcessLine ops) (enterLoop ops initialZone e) lines"

subsection \<open>An interpretation of the float operations\<close>

text \<open>
  The theorems about the engine hold for every interpretation of \<open>float_ops\<close>. To run
  the engine on concrete lines, \<open>lit_ops\<close> interprets floats as real numbers with exact
  arithmetic and reads plain integer literals, on which it agrees with
  \<open>strconv.ParseFloat\<close> (an integer literal below \<open>2^53\<close> is a \<open>float64\<close>).
\<close>

definition atan2_real :: "real \<Rightarrow> real \<Rightarrow> real" where
  "atan2_real y x =
     (if x > 0 then arctan (y / x)
      else if x < 0 \<and> y \<ge> 0 then arctan (y / x) + pi
      else if x < 0 then arctan (y / x) - pi
      else if y > 0 then pi / 2
      else if y < 0 then - pi / 2
      else 0)"

definition lit_ops :: "real float_ops" where
  "lit_ops = \<lparr>ParseFloat = (\<lambda>s. real_of_int (Atoi s)), fzero = 0, fneg = uminus,
     fsub = (-), Abs = abs, fgt = (>), tenth = 1 / 10, Atan2 = atan2_real\<rparr>"

subsection \<open>What a match says about the text\<close>

text \<open>
  \<open>fill re gs\<close> is the text matched by the pattern \<open>re\<close> when its groups capture \<open>gs\<close>,
  and \<open>groups_ok re gs\<close> says that each group is a non-empty run of its class.
\<close>

fun fill :: "tok list \<Rightarrow> string list \<Rightarrow> string" where
  "fill [] gs = []"
| "fill (Lit l # ts) gs = l @ fill ts gs"
| "fill (Cap p # ts) gs = (case gs of [] \<Rightarrow> [] | g # gs' \<Rightarrow> g @ fill ts gs')"

fun groups_ok :: "tok list \<Rightarrow> string list \<Rightarrow> bool" where
  "groups_ok [] gs = (gs = [])"
| "groups_ok (Lit l # ts) gs = groups_ok ts gs"
| "groups_ok (Cap p # ts) gs =
     (case gs of [] \<Rightarrow> False
      | g # gs' \<Rightarrow> g \<noteq> [] \<and> (\<forall>c\<in>set g. p c) \<and> groups_ok ts gs')"

subsection \<open>The earlier revision of the engine\<close>

text \<open>
  \<open>internal/parser/parser.go\<close> also exists in an earlier revision. Its \<open>PlayerState\<close> has
  no field \<open>CorpseZone\<close>, which \<open>internal/ui/window.go\<close> reads, so the interface is built
  against the later revision, the one modelled above. The earlier loop body is
  given here for comparison: its four rules are four independent \<open>if\<close> statements, the
  position rule does not assign \<open>Z\<close>, the zone rule has no filter, the death rule does not
  record a zone and the only recovery phrase is \<open>You summon your corpse\<close>.
\<close>

definition positionRule_early :: "'f float_ops \<Rightarrow> 'f loop \<Rightarrow> string list \<Rightarrow> 'f loop" where
  "positionRule_early ops e matches =
     (let eqY = ParseFloat ops (matches ! 1);
          eqX = ParseFloat ops (matches ! 2);
          x = fneg ops eqX;
          y = fneg ops eqY;
          e1 = (if hasMoved e
                then (let dx = fsub ops x (lastX e);
                          dy = fsub ops y (lastY e)
                      in if fgt ops (Abs ops dx) (tenth ops) \<or> fgt ops (Abs ops dy) (tenth ops)
                         then e\<lparr>CurrentState := (CurrentState e)\<lparr>Heading := Atan2 ops dy dx\<rparr>\<rparr>
                         else e)
                else e)
      in e1\<lparr>CurrentState := (CurrentState e1)\<lparr>X := x, Y := y\<rparr>,
            lastX := x, lastY := y, hasMoved := True\<rparr>)"

definition zoneRule_early :: "'f loop \<Rightarrow> string list \<Rightarrow> 'f loop" where
  "zoneRule_early e matches =
     (let newZone = matches ! 1
      in if newZone \<noteq> Zone (CurrentState e)
         then e\<lparr>CurrentState := (CurrentState e)\<lparr>Zone := newZone\<rparr>\<rparr>
         else e)"

definition deathRule_early :: "'f loop \<Rightarrow> 'f loop" where
  "deathRule_early e =
     e\<lparr>CurrentState := (CurrentState e)
         \<lparr>CorpseX := X (CurrentState e), CorpseY := Y (CurrentState e), HasCorpse := True\<rparr>\<rparr>"

definition ProcessLine_early :: "'f float_ops \<Rightarrow> 'f loop \<Rightarrow> string \<Rightarrow> 'f loop" where
  "ProcessLine_early ops e line =
     (let e1 = (if length (FindStringSubmatch locRegex line) = 4
                then positionRule_early ops e (FindStringSubmatch locRegex line) else e);
          e2 = (if length (FindStringSubmatch zoneRegex line) = 2
                then zoneRule_early e1 (FindStringSubmatch zoneRegex line) else e1);
          e3 = (if Contains line ''You have been slain'' then deathRule_early e2 else e2);
          e4 = (if Contains line ''You summon your corpse'' then recoveryRule e3 else e3)
      in e4)"

subsection \<open>The invariant of the loop\<close>

text \<open>
  Once a position sample has been seen the locals \<open>lastX\<close> and \<open>lastY\<close> hold the
  stored position; before that the heading still has its initial value \<open>h0\<close>.
\<close>

definition tracked :: "'f \<Rightarrow> 'f loop \<Rightarrow> bool" where
  "tracked h0 e = (if hasMoved e then lastX e = X (CurrentState e) \<and> lastY e = Y (CurrentState e)
                   else Heading (CurrentState e) = h0)"

section \<open>The Log Tailer (package eqlog)\<close>

record LogLine =
  Line :: string
  Time :: nat

text \<open>The channel \<open>Lines\<close> is the list of the lines that were sent and not yet received.\<close>

record Reader =
  EqDir :: string
  Lines :: "LogLine list"
  InitialZone :: string

definition NewReader :: "string \<Rightarrow> Reader" where
  "NewReader eqDir = \<lparr>EqDir = eqDir, Lines = [], InitialZone = []\<rparr>"

text \<open>The capacity of the channel made by \<open>NewReader\<close>.\<close>

definition chanCap :: nat where
  "chanCap = 1000"

text \<open>
  \<open>detectInitialZone\<close> scans the tail of the newest log. Its second argument is what the
  file system gives: \<open>None\<close> when no log is found or the log cannot be opened, and
  otherwise the lines that the scanner yields from the start position.
\<close>

definition scanLastZone :: "string list \<Rightarrow> string" where
  "scanLastZone lines =
     foldl (\<lambda>lastZone line.
              if length (FindStringSubmatch zoneRegex line) = 2
              then FindStringSubmatch zoneRegex line ! 1 else lastZone) [] lines"

definition detectInitialZone :: "Reader \<Rightarrow> string list option \<Rightarrow> Reader" where
  "detectInitialZone r logLines =
     (case logLines of
        None \<Rightarrow> r
      | Some lines \<Rightarrow>
          (let lastZone = scanLastZone lines
           in if lastZone \<noteq> [] then r\<lparr>InitialZone := lastZone\<rparr> else r))"

section \<open>Notions used to state the properties of the loader\<close>

text \<open>
  The segments and labels that one raw line, and one file, contribute: what
  \<open>parseStep\<close> appends to a zone map without geometry.
\<close>

definition emptyMap :: "'a ZoneMap" where
  "emptyMap = \<lparr>Name = [], Lines = [], Labels = [], MinX = NaN, MaxX = NaN, MinY = NaN,
                MaxY = NaN\<rparr>"

definition newLines :: "(string \<Rightarrow> ('a::linorder) float64) \<Rightarrow> string \<Rightarrow> 'a MapLine list" where
  "newLines pf rawLine = ZoneMap.Lines (fst (parseStep pf (emptyMap, 0) rawLine))"

definition newLabels :: "(string \<Rightarrow> ('a::linorder) float64) \<Rightarrow> string \<Rightarrow> 'a MapLabel list" where
  "newLabels pf rawLine = Labels (fst (parseStep pf (emptyMap, 0) rawLine))"

definition fileLines :: "(string \<Rightarrow> ('a::linorder) float64) \<Rightarrow> string list \<Rightarrow> 'a MapLine list" where
  "fileLines pf rawLines = concat (map (newLines pf) rawLines)"

definition fileLabels :: "(string \<Rightarrow> ('a::linorder) float64) \<Rightarrow> string list \<Rightarrow> 'a MapLabel list" where
  "fileLabels pf rawLines = concat (map (newLabels pf) rawLines)"

text \<open>
  The file of a target: the path that the case-insensitive index of the directory gives
  for the target name, read through \<open>Open\<close>. A target that is not in the index, or whose
  file cannot be opened, contributes nothing.
\<close>

definition targetFile :: "FileSystem \<Rightarrow> string list \<Rightarrow> string \<Rightarrow> string list" where
  "targetFile fs allFiles target =
     (case fileMap allFiles target of
        None \<Rightarrow> []
      | Some realPath \<Rightarrow> (case Open fs realPath of None \<Rightarrow> [] | Some rawLines \<Rightarrow> rawLines))"

definition targetItems ::
  "(string \<Rightarrow> ('a::linorder) float64) \<Rightarrow> FileSystem \<Rightarrow> string list \<Rightarrow> string \<Rightarrow> nat" where
  "targetItems pf fs allFiles target =
     length (fileLines pf (targetFile fs allFiles target))
     + length (fileLabels pf (targetFile fs allFiles target))"

text \<open>
  The horizontal coordinates of the endpoints of the segments of a zone map, in the
  order of insertion, and the numbers among a list of floats.
\<close>

definition endsX :: "'a ZoneMap \<Rightarrow> 'a float64 list" where
  "endsX zm = concat (map (\<lambda>l. [X1 l, X2 l]) (ZoneMap.Lines zm))"

definition endsY :: "'a ZoneMap \<Rightarrow> 'a float64 list" where
  "endsY zm = concat (map (\<lambda>l. [Y1 l, Y2 l]) (ZoneMap.Lines zm))"

fun nums :: "'a float64 list \<Rightarrow> 'a list" where
  "nums [] = []"
| "nums (NaN # xs) = nums xs"
| "nums (Num a # xs) = a # nums xs"

text \<open>
  The bounding box is the sentinel range extended by every endpoint that is a number.
\<close>

definition boundsOK :: "('a::{linorder,numeral,uminus}) ZoneMap \<Rightarrow> bool" where
  "boundsOK zm =
     (MinX zm = Num (Min (set (99999 # nums (endsX zm))))
      \<and> MaxX zm = Num (Max (set (- 99999 # nums (endsX zm))))
      \<and> MinY zm = Num (Min (set (99999 # nums (endsY zm))))
      \<and> MaxY zm = Num (Max (set (- 99999 # nums (endsY zm)))))"

subsection \<open>Inputs for running the loader\<close>

text \<open>
  \<open>pf_lit\<close> reads \<open>nan\<close> and integer literals, on which it agrees with
  \<open>strconv.ParseFloat\<close>. \<open>oneFile\<close> is a file system whose directory \<open>maps\<close> holds the single
  file \<open>Nexus.txt\<close> with the given lines; every other directory is empty, except that
  the name \<open>maps[\<close> makes the malformed pattern \<^verbatim>\<open>maps[/*\<close>, for which \<open>filepath.Glob\<close>
  fails.
\<close>

definition pf_lit :: "string \<Rightarrow> int float64" where
  "pf_lit s = (if s = ''nan'' \<or> s = ''NaN'' then NaN else Num (Atoi s))"

definition oneFile :: "string list \<Rightarrow> FileSystem" where
  "oneFile rawLines =
     \<lparr>ListDir = (\<lambda>d. if d = ''maps'' then Some [''maps/Nexus.txt'']
                     else if d = ''maps['' then None else Some []),
      Open = (\<lambda>p. if p = ''maps/Nexus.txt'' then Some rawLines else None)\<rparr>"

definition black :: RGBA where
  "black = \<lparr>R = 0, G = 0, B = 0, A = 255\<rparr>"

section \<open>The Tailer feeding the State Engine\<close>

text \<open>
  \<open>bufio.Reader.ReadString\<close> with the delimiter line feed, on the bytes of the file after
  the read position: the text up to and including the first line feed, or, when there is
  none, all the bytes together with the error \<open>io.EOF\<close> (the flag). The third component
  is what stays unread.
\<close>

definition ReadString :: "string \<Rightarrow> string \<times> bool \<times> string" where
  "ReadString buf =
     (if CHR 0x0A \<in> set buf
      then (takeWhile notNewline buf @ [CHR 0x0A], False, tl (dropWhile notNewline buf))
      else (buf, True, []))"

text \<open>
  The producer \<open>pollAndRead\<close> and the consumer \<open>ProcessLines\<close> run concurrently and meet at
  the channel. The state of producer and consumer, while one file stays active:
  \<^item> \<open>unread\<close>: the bytes of the file after the read position;
  \<^item> \<open>chan\<close>: the channel \<open>r.Lines\<close>, oldest entry first;
  \<^item> \<open>holding\<close>: the line that \<open>pollAndRead\<close> has read and is sending, while the send has
    not completed;
  \<^item> \<open>engine\<close>: the state of the loop of \<open>ProcessLines\<close>;
  \<^item> \<open>written\<close> and \<open>observed\<close> record the history: the bytes of the file from the start
    position on, and the lines that the engine has received.
\<close>

record 'f pipeline =
  written :: string
  unread :: string
  chan :: "LogLine list"
  holding :: "LogLine option"
  engine :: "'f loop"
  observed :: "string list"

text \<open>
  The steps of the system. The game writes any bytes to the end of the file: a write
  need not end with a line feed, nor hold a whole line. \<open>pollAndRead\<close> reads: on any error,
  \<open>io.EOF\<close> included, it sleeps and tries again, and the text that \<open>ReadString\<close> returned
  with the error is dropped; a line that is empty after trimming is skipped; another line
  is trimmed and sent with the current time. The send completes when the channel holds
  fewer than its capacity. The engine receives the oldest entry of the channel and runs
  one iteration of its loop on it.
\<close>

inductive step :: "'f float_ops \<Rightarrow> 'f pipeline \<Rightarrow> 'f pipeline \<Rightarrow> bool" for ops where
  append: "step ops s (s\<lparr>written := written s @ bytes, unread := unread s @ bytes\<rparr>)"
| read_eof: "holding s = None \<Longrightarrow> ReadString (unread s) = (line, True, rest) \<Longrightarrow>
     step ops s (s\<lparr>unread := rest\<rparr>)"
| read_blank: "holding s = None \<Longrightarrow> ReadString (unread s) = (line, False, rest) \<Longrightarrow>
     TrimSpace line = [] \<Longrightarrow>
     step ops s (s\<lparr>unread := rest\<rparr>)"
| read_line: "holding s = None \<Longrightarrow> ReadString (unread s) = (line, False, rest) \<Longrightarrow>
     TrimSpace line \<noteq> [] \<Longrightarrow>
     step ops s (s\<lparr>unread := rest, holding := Some \<lparr>Line = TrimSpace line, Time = now\<rparr>\<rparr>)"
| send: "holding s = Some entry \<Longrightarrow> length (chan s) < chanCap \<Longrightarrow>
     step ops s (s\<lparr>chan := chan s @ [entry], holding := None\<rparr>)"
| receive: "chan s = entry # entries \<Longrightarrow>
     step ops s (s\<lparr>chan := entries, engine := ProcessLine ops (engine s) (Line entry),
                    observed := observed s @ [Line entry]\<rparr>)"

text \<open>
  The system starts when the file has been opened and the read position set: the bytes
  from there on are unread, nothing is in flight and the engine has entered its loop.
\<close>

definition start :: "'f float_ops \<Rightarrow> 'f Engine \<Rightarrow> string \<Rightarrow> string \<Rightarrow> 'f pipeline" where
  "start ops e initialZone buf =
     \<lparr>written = buf, unread = buf, chan = [], holding = None,
      engine = enterLoop ops initialZone e, observed = []\<rparr>"

text \<open>
  The lines of a text, each ended by a line feed (a last line without line feed counts
  too), and the lines that the Tailer is to deliver for them: trimmed, the empty ones
  left out.
\<close>

fun splitLines :: "string \<Rightarrow> string list" where
  "splitLines [] = []"
| "splitLines (c # cs) =
     (if c = CHR 0x0A then [] # splitLines cs
      else (case splitLines cs of [] \<Rightarrow> [c] # [] | l # ls \<Rightarrow> (c # l) # ls))"

definition delivered :: "string list \<Rightarrow> string list" where
  "delivered ls = filter (\<lambda>l. l \<noteq> []) (map TrimSpace ls)"

subsection \<open>Runs in which the reader never meets an unfinished line\<close>

text \<open>
  A text is \<open>terminated\<close> when it is empty or ends with a line feed. \<open>lineStep\<close> is a step
  after which the unread text is terminated: the game completes its lines before the
  Tailer reads again. \<open>work\<close> is a step that leaves the file as it is.
\<close>

definition terminated :: "string \<Rightarrow> bool" where
  "terminated buf = (buf = [] \<or> last buf = CHR 0x0A)"

definition lineStep :: "'f float_ops \<Rightarrow> 'f pipeline \<Rightarrow> 'f pipeline \<Rightarrow> bool" where
  "lineStep ops s s' = (step ops s s' \<and> terminated (unread s'))"

definition work :: "'f float_ops \<Rightarrow> 'f pipeline \<Rightarrow> 'f pipeline \<Rightarrow> bool" where
  "work ops s s' = (lineStep ops s s' \<and> written s' = written s)"

definition inFlight :: "'f pipeline \<Rightarrow> string list" where
  "inFlight s =
     map Line (chan s) @ (case holding s of None \<Rightarrow> [] | Some entry \<Rightarrow> [Line entry])
       @ delivered (splitLines (unread s))"

definition fifo :: "'f float_ops \<Rightarrow> 'f loop \<Rightarrow> 'f pipeline \<Rightarrow> bool" where
  "fifo ops e0 s =
     (terminated (unread s) \<and> terminated (written s)
      \<and> observed s @ inFlight s = delivered (splitLines (written s))
      \<and> length (chan s) \<le> chanCap
      \<and> engine s = foldl (ProcessLine ops) e0 (observed s))"

text \<open>
  While something is unread or in flight producer or consumer can take a step, and every
  such step brings the system closer to the state where all of it has been observed.
\<close>

definition backlog :: "'f pipeline \<Rightarrow> nat" where
  "backlog s = 3 * length (unread s) + (case holding s of None \<Rightarrow> 0 | Some entry \<Rightarrow> 2)
               + length (chan s)"

section \<open>Properties of the matcher\<close>

lemma Contains_iff: "Contains s sub \<longleftrightarrow> (\<exists>p q. s = p @ sub @ q)"
proof (induction s)
  case Nil
  then show ?case by auto
next
  case (Cons c s)
  show ?case
  proof
    assume "Contains (c # s) sub"
    then consider "HasPrefix (c # s) sub" | "Contains s sub" by auto
    then show "\<exists>p q. c # s = p @ sub @ q"
    proof cases
      case 1
      then have "c # s = [] @ sub @ drop (length sub) (c # s)"
        unfolding HasPrefix_def by (metis append_Nil append_take_drop_id)
      then show ?thesis by blast
    next
      case 2
      then obtain p q where "s = p @ sub @ q" using Cons.IH by blast
      then have "c # s = (c # p) @ sub @ q" by simp
      then show ?thesis by blast
    qed
  next
    assume "\<exists>p q. c # s = p @ sub @ q"
    then obtain p q where pq: "c # s = p @ sub @ q" by blast
    show "Contains (c # s) sub"
    proof (cases p)
      case Nil
      then have "HasPrefix (c # s) sub" using pq by (simp add: HasPrefix_def)
      then show ?thesis by simp
    next
      case (Cons a p')
      then have "s = p' @ sub @ q" using pq by simp
      then show ?thesis using Cons.IH by auto
    qed
  qed
qed

lemma HasPrefix_iff: "HasPrefix s p \<longleftrightarrow> (\<exists>q. s = p @ q)"
  unfolding HasPrefix_def by (metis append_eq_conv_conj append_take_drop_id)

lemma first_len_SomeD:
  "first_len f n = Some r \<Longrightarrow>
     \<exists>k. 0 < k \<and> k \<le> n \<and> f k = Some r \<and> (\<forall>j. k < j \<and> j \<le> n \<longrightarrow> f j = None)"
proof (induction n)
  case 0
  then show ?case by simp
next
  case (Suc n)
  show ?case
  proof (cases "f (Suc n)")
    case None
    then have "first_len f n = Some r" using Suc.prems by simp
    then obtain k where k: "0 < k" "k \<le> n" "f k = Some r" "\<forall>j. k < j \<and> j \<le> n \<longrightarrow> f j = None"
      using Suc.IH by blast
    have "\<forall>j. k < j \<and> j \<le> Suc n \<longrightarrow> f j = None"
      using k(4) None by (metis le_SucE)
    then show ?thesis using k by (metis le_SucI)
  next
    case (Some a)
    then have "a = r" using Suc.prems by simp
    then show ?thesis using Some by (intro exI[of _ "Suc n"]) auto
  qed
qed

lemma first_len_None_iff:
  "first_len f n = None \<longleftrightarrow> (\<forall>k. 0 < k \<and> k \<le> n \<longrightarrow> f k = None)"
proof (induction n)
  case 0
  then show ?case by simp
next
  case (Suc n)
  show ?case
  proof (cases "f (Suc n)")
    case None
    then show ?thesis using Suc.IH by (auto elim: le_SucE)
  next
    case (Some a)
    then show ?thesis by auto
  qed
qed

text \<open>A match is a prefix of the text, built from the pattern and the captured groups.\<close>

lemma match_toks_sound:
  "match_toks re s = Some (n, gs) \<Longrightarrow> n \<le> length s \<and> take n s = fill re gs \<and> groups_ok re gs"
proof (induction re arbitrary: s n gs)
  case Nil
  then show ?case by simp
next
  case (Cons t ts)
  show ?case
  proof (cases t)
    case (Lit l)
    from Cons.prems Lit obtain n' where
      pre: "HasPrefix s l" and m: "match_toks ts (drop (length l) s) = Some (n', gs)"
      and n: "n = length l + n'"
      by (auto split: if_splits)
    from Cons.IH[OF m] have ih: "n' \<le> length (drop (length l) s)"
      "take n' (drop (length l) s) = fill ts gs" "groups_ok ts gs" by auto
    obtain q where q: "s = l @ q" using pre HasPrefix_iff by blast
    have l: "take (length l) s = l" "length l \<le> length s" using q by auto
    have "take n s = take (length l) s @ take n' (drop (length l) s)"
      unfolding n by (simp add: take_add)
    then show ?thesis using ih l Lit n by auto
  next
    case (Cap p)
    from Cons.prems Cap have
      "first_len (\<lambda>k. map_option (\<lambda>(n, gs). (k + n, take k s # gs)) (match_toks ts (drop k s)))
         (length (takeWhile p s)) = Some (n, gs)" by simp
    from first_len_SomeD[OF this] obtain k n' gs' where
      k: "0 < k" "k \<le> length (takeWhile p s)" and m: "match_toks ts (drop k s) = Some (n', gs')"
      and n: "n = k + n'" and gs: "gs = take k s # gs'"
      by auto
    from Cons.IH[OF m] have ih: "n' \<le> length (drop k s)"
      "take n' (drop k s) = fill ts gs'" "groups_ok ts gs'" by auto
    have kl: "k \<le> length s" using k(2) by (meson le_trans length_takeWhile_le)
    have "s = takeWhile p s @ dropWhile p s" by simp
    then have tk: "take k s = take k (takeWhile p s)"
      using k(2) by (metis append.right_neutral diff_is_0_eq' take0 take_append)
    have "set (take k s) \<subseteq> set (takeWhile p s)" unfolding tk by (rule set_take_subset)
    then have allp: "\<forall>c\<in>set (take k s). p c" by (auto dest: set_takeWhileD)
    have ne: "take k s \<noteq> []" using k(1) kl by auto
    have "take n s = take k s @ take n' (drop k s)" unfolding n by (simp add: take_add)
    then show ?thesis using ih Cap n gs kl allp ne by auto
  qed
qed

text \<open>\<open>FindStringSubmatch\<close> returns nil or the match at some suffix of the text.\<close>

lemma FindStringSubmatch_cases:
  "FindStringSubmatch re s = [] \<or>
   (\<exists>p u n gs. s = p @ u \<and> match_toks re u = Some (n, gs)
       \<and> FindStringSubmatch re s = take n u # gs)"
proof (induction s)
  case Nil
  then show ?case by (auto split: option.splits)
next
  case (Cons c s)
  show ?case
  proof (cases "match_toks re (c # s)")
    case None
    then have eq: "FindStringSubmatch re (c # s) = FindStringSubmatch re s" by simp
    from Cons.IH show ?thesis
    proof
      assume "FindStringSubmatch re s = []"
      then show ?thesis using eq by simp
    next
      assume "\<exists>p u n gs. s = p @ u \<and> match_toks re u = Some (n, gs)
                \<and> FindStringSubmatch re s = take n u # gs"
      then obtain p u n gs where "s = p @ u" "match_toks re u = Some (n, gs)"
        "FindStringSubmatch re s = take n u # gs"
        by blast
      then have "c # s = (c # p) @ u \<and> match_toks re u = Some (n, gs)
                  \<and> FindStringSubmatch re (c # s) = take n u # gs"
        using eq by simp
      then show ?thesis by blast
    qed
  next
    case (Some a)
    obtain n gs where a: "a = (n, gs)" by (cases a)
    have "c # s = [] @ (c # s) \<and> match_toks re (c # s) = Some (n, gs)
            \<and> FindStringSubmatch re (c # s) = take n (c # s) # gs"
      using Some a by simp
    then show ?thesis by blast
  qed
qed

lemma FindStringSubmatch_found:
  "match_toks re u \<noteq> None \<Longrightarrow> FindStringSubmatch re (p @ u) \<noteq> []"
proof (induction p)
  case Nil
  then show ?case by (cases u) (auto split: option.splits)
next
  case (Cons c p)
  then show ?case by (auto split: option.splits)
qed

lemma FindStringSubmatch_text:
  assumes "FindStringSubmatch re s \<noteq> []"
  shows "\<exists>p q. s = p @ fill re (tl (FindStringSubmatch re s)) @ q
           \<and> groups_ok re (tl (FindStringSubmatch re s))
           \<and> hd (FindStringSubmatch re s) = fill re (tl (FindStringSubmatch re s))"
proof -
  from FindStringSubmatch_cases[of re s] assms obtain p u n gs where
    *: "s = p @ u" "match_toks re u = Some (n, gs)" "FindStringSubmatch re s = take n u # gs"
    by blast
  from match_toks_sound[OF *(2)] have **: "take n u = fill re gs" "groups_ok re gs" by auto
  moreover have "u = take n u @ drop n u" by simp
  ultimately have "s = p @ fill re gs @ drop n u" using *(1) by simp
  then show ?thesis using *(3) ** by auto
qed

text \<open>The three groups of a position match are fields of the line, in this order.\<close>

lemma locRegex_fields:
  assumes "length (FindStringSubmatch locRegex line) = 4"
  shows "\<exists>p q. line = p @ ''Your Location is '' @ FindStringSubmatch locRegex line ! 1 @ '', ''
                  @ FindStringSubmatch locRegex line ! 2 @ '', ''
                  @ FindStringSubmatch locRegex line ! 3 @ q"
proof -
  obtain w a b c where m: "FindStringSubmatch locRegex line = [w, a, b, c]"
    using assms by (auto simp: length_Suc_conv numeral_eq_Suc)
  then have "FindStringSubmatch locRegex line \<noteq> []" by simp
  from FindStringSubmatch_text[OF this] obtain p q where
    "line = p @ fill locRegex [a, b, c] @ q" using m by auto
  then show ?thesis using m by (auto simp: locRegex_def)
qed

lemma match_Lit_append:
  "match_toks (Lit l # ts) (l @ t) = map_option (\<lambda>(n, gs). (length l + n, gs)) (match_toks ts t)"
  by (simp add: HasPrefix_def)

lemma match_dot:
  "match_toks [Lit ''.''] u = (if HasPrefix u ''.'' then Some (1, []) else None)"
  by simp

lemma match_Cap_dot:
  "match_toks [Cap p, Lit ''.''] t =
     first_len (\<lambda>k. if HasPrefix (drop k t) ''.'' then Some (k + 1, [take k t]) else None)
       (length (takeWhile p t))"
proof -
  have "(\<lambda>k. map_option (\<lambda>(n, gs). (k + n, take k t # gs)) (match_toks [Lit ''.''] (drop k t)))
        = (\<lambda>k. if HasPrefix (drop k t) ''.'' then Some (k + 1, [take k t]) else None)"
    by (rule ext) (simp only: match_dot option.map_disc_iff split: if_splits, simp)
  then show ?thesis by (simp only: match_toks.simps)
qed

lemma first_len_top: "0 < n \<Longrightarrow> f n = Some r \<Longrightarrow> first_len f n = Some r"
  by (cases n) simp_all

lemma match_Cap_exact:
  assumes "g \<noteq> []" and "\<forall>c\<in>set g. p c" and "rest = [] \<or> \<not> p (hd rest)"
    and "match_toks ts rest = Some (n, gs)"
  shows "match_toks (Cap p # ts) (g @ rest) = Some (length g + n, g # gs)"
proof -
  have "takeWhile p rest = []" using assms(3) by (cases rest) auto
  then have tw: "takeWhile p (g @ rest) = g" using assms(2) by (simp add: takeWhile_append2)
  have "first_len (\<lambda>k. map_option (\<lambda>(n, gs). (k + n, take k (g @ rest) # gs))
                         (match_toks ts (drop k (g @ rest)))) (length g)
          = Some (length g + n, g # gs)"
    by (rule first_len_top) (simp_all add: assms(1,4))
  then show ?thesis by (simp only: match_toks.simps tw)
qed

lemma match_Lit_miss: "s = [] \<or> hd s \<noteq> c \<Longrightarrow> match_toks (Lit (c # l) # ts) s = None"
  by (cases s) (auto simp: HasPrefix_def)

lemma FindStringSubmatch_skip:
  assumes "c \<notin> set p"
  shows "FindStringSubmatch (Lit (c # l) # ts) (p @ c # s) = FindStringSubmatch (Lit (c # l) # ts) (c # s)"
  using assms
proof (induction p)
  case Nil
  then show ?case by simp
next
  case (Cons x p)
  then have "match_toks (Lit (c # l) # ts) (x # p @ c # s) = None"
    by (intro match_Lit_miss) auto
  then show ?case using Cons by simp
qed

text \<open>
  A line that shows \<open>Your Location is f1, f2, f3\<close> after a prefix without the letter \<open>Y\<close>
  (such as the time stamp of a log line), with three non-empty runs of digits, periods
  and minus signs, matches the position pattern, and the groups are the three runs.
\<close>

lemma locRegex_complete:
  assumes "CHR ''Y'' \<notin> set p"
    and "f1 \<noteq> []" "\<forall>c\<in>set f1. numChar c"
    and "f2 \<noteq> []" "\<forall>c\<in>set f2. numChar c"
    and "f3 \<noteq> []" "\<forall>c\<in>set f3. numChar c"
    and "q = [] \<or> \<not> numChar (hd q)"
  shows "FindStringSubmatch locRegex (p @ ''Your Location is '' @ f1 @ '', '' @ f2 @ '', '' @ f3 @ q)
           = [''Your Location is '' @ f1 @ '', '' @ f2 @ '', '' @ f3, f1, f2, f3]"
proof -
  let ?s = "''Your Location is '' @ f1 @ '', '' @ f2 @ '', '' @ f3 @ q"
  have sep: "\<not> numChar (hd ('', '' @ r))" for r by (simp add: numChar_def)
  have m3: "match_toks [Cap numChar] (f3 @ q) = Some (length f3 + 0, [f3])"
    using assms(6,7,8) by (intro match_Cap_exact) simp_all
  have "match_toks [Lit '', '', Cap numChar] ('', '' @ f3 @ q)
          = Some (length '', '' + (length f3 + 0), [f3])"
    unfolding match_Lit_append m3 by simp
  then have m2: "match_toks [Cap numChar, Lit '', '', Cap numChar] (f2 @ '', '' @ f3 @ q)
          = Some (length f2 + (length '', '' + (length f3 + 0)), [f2, f3])"
    using assms(4,5) sep by (intro match_Cap_exact) simp_all
  have "match_toks [Lit '', '', Cap numChar, Lit '', '', Cap numChar] ('', '' @ f2 @ '', '' @ f3 @ q)
          = Some (length '', '' + (length f2 + (length '', '' + (length f3 + 0))), [f2, f3])"
    unfolding match_Lit_append m2 by simp
  then have m1: "match_toks [Cap numChar, Lit '', '', Cap numChar, Lit '', '', Cap numChar]
            (f1 @ '', '' @ f2 @ '', '' @ f3 @ q)
          = Some (length f1 + (length '', '' + (length f2 + (length '', '' + (length f3 + 0)))),
                  [f1, f2, f3])"
    using assms(2,3) sep by (intro match_Cap_exact) simp_all
  then obtain n where m: "match_toks locRegex ?s = Some (n, [f1, f2, f3])"
    unfolding locRegex_def match_Lit_append by simp
  from match_toks_sound[OF m] have tk: "take n ?s = fill locRegex [f1, f2, f3]" by simp
  have fl: "fill locRegex [f1, f2, f3] = ''Your Location is '' @ f1 @ '', '' @ f2 @ '', '' @ f3"
    by (simp add: locRegex_def)
  have "FindStringSubmatch locRegex (p @ ?s) = FindStringSubmatch locRegex ?s"
    unfolding locRegex_def using FindStringSubmatch_skip[OF assms(1)] by simp
  also have "\<dots> = [''Your Location is '' @ f1 @ '', '' @ f2 @ '', '' @ f3, f1, f2, f3]"
  proof -
    obtain s' where s': "?s = CHR ''Y'' # s'" by simp
    show ?thesis using m tk unfolding fl unfolding s' by simp
  qed
  finally show ?thesis .
qed

lemma lit_cap_dot_match:
  assumes m: "match_toks [Lit P, Cap notNewline, Lit ''.''] s = Some (n, gs)"
    and nl: "CHR 0x0A \<notin> set s"
  shows "\<exists>z r. gs = [z] \<and> z \<noteq> [] \<and> s = P @ z @ ''.'' @ r
            \<and> CHR ''.'' \<notin> set r \<and> take n s = P @ z @ ''.''"
proof -
  define g where "g = (\<lambda>t k. if HasPrefix (drop k t) ''.'' then Some (k + 1, [take k t]) else None)"
  have pre: "HasPrefix s P"
  proof (rule ccontr)
    assume "\<not> HasPrefix s P"
    then have "match_toks [Lit P, Cap notNewline, Lit ''.''] s = None" by simp
    then show False using m by simp
  qed
  then obtain t where s: "s = P @ t" using HasPrefix_iff by blast
  have "\<forall>c\<in>set t. notNewline c" using nl s by (auto simp: notNewline_def)
  then have tw: "takeWhile notNewline t = t" by (simp add: takeWhile_eq_all_conv)
  have "match_toks [Lit P, Cap notNewline, Lit ''.''] s
          = map_option (\<lambda>(n, gs). (length P + n, gs)) (first_len (g t) (length t))"
    unfolding s match_Lit_append match_Cap_dot tw g_def ..
  then have "map_option (\<lambda>(n, gs). (length P + n, gs)) (first_len (g t) (length t)) = Some (n, gs)"
    using m by simp
  then obtain n' where fl: "first_len (g t) (length t) = Some (n', gs)"
    and n: "n = length P + n'"
    by auto
  from first_len_SomeD[OF fl] obtain k where
    k: "0 < k" "k \<le> length t" "g t k = Some (n', gs)"
    and mx: "\<forall>j. k < j \<and> j \<le> length t \<longrightarrow> g t j = None" by blast
  from k(3) have dot: "HasPrefix (drop k t) ''.''" and n': "n' = k + 1" and gs: "gs = [take k t]"
    by (auto simp: g_def split: if_splits)
  from dot obtain r where r: "drop k t = ''.'' @ r" using HasPrefix_iff by blast
  have nodot: "CHR ''.'' \<notin> set r"
  proof
    assume "CHR ''.'' \<in> set r"
    then obtain r1 r2 where r12: "r = r1 @ CHR ''.'' # r2" by (meson split_list)
    let ?j = "k + (1 + length r1)"
    have dj: "drop ?j t = CHR ''.'' # r2"
    proof -
      have "drop ?j t = drop (1 + length r1) (drop k t)" by (simp only: drop_drop add.commute)
      also have "\<dots> = drop (length r1) r" unfolding r by simp
      also have "\<dots> = CHR ''.'' # r2" unfolding r12 by simp
      finally show ?thesis .
    qed
    have "?j < length t"
    proof (rule ccontr)
      assume "\<not> ?j < length t"
      then have "drop ?j t = []" by simp
      then show False using dj by simp
    qed
    moreover have "g t ?j \<noteq> None" unfolding g_def dj by (simp add: HasPrefix_def)
    ultimately show False using mx by auto
  qed
  have ne: "take k t \<noteq> []" using k(1,2) by auto
  have "take n' t = take k t @ take 1 (drop k t)" unfolding n' by (rule take_add)
  also have "\<dots> = take k t @ ''.''" unfolding r by simp
  finally have tn': "take n' t = take k t @ ''.''" .
  have tk: "take n s = P @ take k t @ ''.''"
    unfolding n s using tn' by simp
  have "t = take k t @ drop k t" by simp
  then have "s = P @ take k t @ ''.'' @ r" unfolding s r by simp
  then show ?thesis using gs ne nodot tk by blast
qed

lemma first_len_NoneD: "first_len f n = None \<Longrightarrow> 0 < k \<Longrightarrow> k \<le> n \<Longrightarrow> f k = None"
  by (simp add: first_len_None_iff)

lemma lit_cap_dot_complete:
  assumes "body \<noteq> []" and "CHR 0x0A \<notin> set body"
  shows "match_toks [Lit P, Cap notNewline, Lit ''.''] (P @ body @ ''.'' @ rest) \<noteq> None"
proof -
  let ?t = "body @ ''.'' @ rest"
  let ?g = "\<lambda>k. if HasPrefix (drop k ?t) ''.'' then Some (k + 1, [take k ?t]) else None"
  have "\<forall>c\<in>set body. notNewline c" using assms(2) by (auto simp: notNewline_def)
  then have "takeWhile notNewline ?t = body @ takeWhile notNewline (''.'' @ rest)"
    by (simp add: takeWhile_append2)
  then have le: "length body \<le> length (takeWhile notNewline ?t)" by simp
  have some: "?g (length body) \<noteq> None" by (simp add: HasPrefix_def)
  have pos: "0 < length body" using assms(1) by simp
  have "first_len ?g (length (takeWhile notNewline ?t)) \<noteq> None"
  proof
    assume "first_len ?g (length (takeWhile notNewline ?t)) = None"
    from first_len_NoneD[OF this pos le] show False using some by simp
  qed
  then show ?thesis unfolding match_Lit_append match_Cap_dot by simp
qed

lemma FindStringSubmatch_leftmost:
  "FindStringSubmatch re s = [] \<or>
   (\<exists>p u n gs. s = p @ u \<and> match_toks re u = Some (n, gs)
       \<and> FindStringSubmatch re s = take n u # gs
       \<and> (\<forall>p' u'. s = p' @ u' \<and> length p' < length p \<longrightarrow> match_toks re u' = None))"
proof (induction s)
  case Nil
  then show ?case by (auto split: option.splits)
next
  case (Cons c s)
  show ?case
  proof (cases "match_toks re (c # s)")
    case None
    then have eq: "FindStringSubmatch re (c # s) = FindStringSubmatch re s" by simp
    from Cons.IH show ?thesis
    proof
      assume "FindStringSubmatch re s = []"
      then show ?thesis using eq by simp
    next
      assume "\<exists>p u n gs. s = p @ u \<and> match_toks re u = Some (n, gs)
                \<and> FindStringSubmatch re s = take n u # gs
                \<and> (\<forall>p' u'. s = p' @ u' \<and> length p' < length p \<longrightarrow> match_toks re u' = None)"
      then obtain p u n gs where *: "s = p @ u" "match_toks re u = Some (n, gs)"
        "FindStringSubmatch re s = take n u # gs"
        "\<forall>p' u'. s = p' @ u' \<and> length p' < length p \<longrightarrow> match_toks re u' = None"
        by blast
      have "\<forall>p' u'. c # s = p' @ u' \<and> length p' < length (c # p) \<longrightarrow> match_toks re u' = None"
      proof (intro allI impI)
        fix p' u'
        assume a: "c # s = p' @ u' \<and> length p' < length (c # p)"
        show "match_toks re u' = None"
        proof (cases p')
          case Nil
          then show ?thesis using a None by simp
        next
          case (Cons x p'')
          then have "s = p'' @ u'" "length p'' < length p" using a by simp_all
          then show ?thesis using *(4) by blast
        qed
      qed
      moreover have "c # s = (c # p) @ u" using *(1) by simp
      ultimately show ?thesis using *(2,3) eq by metis
    qed
  next
    case (Some a)
    obtain n gs where a: "a = (n, gs)" by (cases a)
    have "c # s = [] @ (c # s) \<and> match_toks re (c # s) = Some (n, gs)
            \<and> FindStringSubmatch re (c # s) = take n (c # s) # gs
            \<and> (\<forall>p' u'. c # s = p' @ u' \<and> length p' < length ([]::string) \<longrightarrow> match_toks re u' = None)"
      using Some a by simp
    then show ?thesis by blast
  qed
qed

text \<open>
  The zone pattern on a line without line feed: the match starts at the first occurrence
  of \<open>You have entered \<close> and the group ends before the last period.
\<close>

lemma zoneRegex_first_last:
  assumes nl: "CHR 0x0A \<notin> set line"
    and line: "line = pre @ ''You have entered '' @ body @ ''.'' @ rest" and body: "body \<noteq> []"
  shows "\<exists>p z r. line = p @ ''You have entered '' @ z @ ''.'' @ r \<and> z \<noteq> []
           \<and> CHR ''.'' \<notin> set r
           \<and> (\<forall>u v. line = u @ ''You have entered '' @ v \<longrightarrow> length p \<le> length u)
           \<and> FindStringSubmatch zoneRegex line = [''You have entered '' @ z @ ''.'', z]"
proof -
  let ?P = "''You have entered ''"
  have "CHR 0x0A \<notin> set body" using nl line by auto
  from lit_cap_dot_complete[OF body this]
  have "match_toks zoneRegex (?P @ body @ ''.'' @ rest) \<noteq> None"
    unfolding zoneRegex_def .
  then have "FindStringSubmatch zoneRegex line \<noteq> []"
    unfolding line by (rule FindStringSubmatch_found)
  with FindStringSubmatch_leftmost[of zoneRegex line] obtain p u n gs where
    *: "line = p @ u" "match_toks zoneRegex u = Some (n, gs)"
       "FindStringSubmatch zoneRegex line = take n u # gs"
       "\<forall>p' u'. line = p' @ u' \<and> length p' < length p \<longrightarrow> match_toks zoneRegex u' = None"
    by blast
  have "CHR 0x0A \<notin> set u" using nl *(1) by auto
  from lit_cap_dot_match[OF *(2)[unfolded zoneRegex_def] this] obtain z r where
    z: "gs = [z]" "z \<noteq> []" "u = ?P @ z @ ''.'' @ r" "CHR ''.'' \<notin> set r"
    "take n u = ?P @ z @ ''.''" by blast
  have l: "line = p @ ?P @ z @ ''.'' @ r" unfolding *(1) z(3) ..
  have first: "\<forall>u v. line = u @ ?P @ v \<longrightarrow> length p \<le> length u"
  proof (intro allI impI, rule ccontr)
    fix u0 v
    assume occ: "line = u0 @ ?P @ v" and "\<not> length p \<le> length u0"
    then have lt: "length u0 < length p" by simp
    then have none: "match_toks zoneRegex (?P @ v) = None" using *(4) occ by blast
    define w where "w = drop (length u0) p"
    have p: "p = u0 @ w"
    proof -
      have "take (length u0) line = u0" using occ by simp
      moreover have "take (length u0) line = take (length u0) p" using l lt by simp
      ultimately show ?thesis unfolding w_def by (metis append_take_drop_id)
    qed
    have w: "w \<noteq> []" using lt p by auto
    have "u0 @ ?P @ v = u0 @ w @ ?P @ z @ ''.'' @ r" using occ l p by simp
    then have pv: "?P @ v = w @ ?P @ z @ ''.'' @ r" by simp
    define b' where "b' = drop (length ?P) (w @ ?P @ z)"
    have "length ?P \<le> length (w @ ?P @ z)" by simp
    then have "drop (length ?P) ((w @ ?P @ z) @ ''.'' @ r) = b' @ ''.'' @ r"
      unfolding b'_def by (simp only: drop_append) simp
    moreover have "drop (length ?P) (?P @ v) = v" by simp
    ultimately have v: "v = b' @ ''.'' @ r" using pv by (metis append.assoc)
    have "length b' = length w + length z" unfolding b'_def by simp
    then have b1: "b' \<noteq> []" using w by auto
    have "set b' \<subseteq> set line" unfolding occ v by auto
    then have b2: "CHR 0x0A \<notin> set b'" using nl by auto
    from lit_cap_dot_complete[OF b1 b2, of ?P r] show False
      using none unfolding v zoneRegex_def by simp
  qed
  have "FindStringSubmatch zoneRegex line = [?P @ z @ ''.'', z]"
    unfolding *(3) z(1) z(5) ..
  then show ?thesis using l z(2,4) first
    by (intro exI[of _ p] exI[of _ z] exI[of _ r]) simp
qed

section \<open>Properties of the State Engine\<close>

lemma ProcessLines_snoc:
  "ProcessLines ops e iz (pre @ [line]) = ProcessLine ops (ProcessLines ops e iz pre) line"
  by (simp add: ProcessLines_def)

lemma positionRule_fields:
  "X (CurrentState (positionRule ops e m)) = fneg ops (ParseFloat ops (m ! 2))"
  "Y (CurrentState (positionRule ops e m)) = fneg ops (ParseFloat ops (m ! 1))"
  "Z (CurrentState (positionRule ops e m)) = ParseFloat ops (m ! 3)"
  "lastX (positionRule ops e m) = fneg ops (ParseFloat ops (m ! 2))"
  "lastY (positionRule ops e m) = fneg ops (ParseFloat ops (m ! 1))"
  "hasMoved (positionRule ops e m)"
  by (simp_all add: positionRule_def Let_def)

lemma positionRule_Heading:
  "Heading (CurrentState (positionRule ops e m)) =
     (if hasMoved e \<and>
         (fgt ops (Abs ops (fsub ops (fneg ops (ParseFloat ops (m ! 2))) (lastX e))) (tenth ops)
          \<or> fgt ops (Abs ops (fsub ops (fneg ops (ParseFloat ops (m ! 1))) (lastY e))) (tenth ops))
      then Atan2 ops (fsub ops (fneg ops (ParseFloat ops (m ! 1))) (lastY e))
                     (fsub ops (fneg ops (ParseFloat ops (m ! 2))) (lastX e))
      else Heading (CurrentState e))"
  by (simp add: positionRule_def Let_def)

lemma other_rules_keep:
  "lastX (zoneRule e m) = lastX e" "lastY (zoneRule e m) = lastY e" "hasMoved (zoneRule e m) = hasMoved e"
  "X (CurrentState (zoneRule e m)) = X (CurrentState e)" "Y (CurrentState (zoneRule e m)) = Y (CurrentState e)"
  "Heading (CurrentState (zoneRule e m)) = Heading (CurrentState e)"
  "lastX (deathRule e) = lastX e" "lastY (deathRule e) = lastY e" "hasMoved (deathRule e) = hasMoved e"
  "X (CurrentState (deathRule e)) = X (CurrentState e)" "Y (CurrentState (deathRule e)) = Y (CurrentState e)"
  "Heading (CurrentState (deathRule e)) = Heading (CurrentState e)"
  "lastX (recoveryRule e) = lastX e" "lastY (recoveryRule e) = lastY e" "hasMoved (recoveryRule e) = hasMoved e"
  "X (CurrentState (recoveryRule e)) = X (CurrentState e)" "Y (CurrentState (recoveryRule e)) = Y (CurrentState e)"
  "Heading (CurrentState (recoveryRule e)) = Heading (CurrentState e)"
  by (simp_all add: zoneRule_def deathRule_def recoveryRule_def Let_def)

lemma tracked_step: "tracked h0 e \<Longrightarrow> tracked h0 (ProcessLine ops e line)"
  by (simp add: tracked_def ProcessLine_def positionRule_fields other_rules_keep)

lemma hasMoved_step:
  "hasMoved (ProcessLine ops e line) = (hasMoved e \<or> length (FindStringSubmatch locRegex line) = 4)"
  by (simp add: ProcessLine_def positionRule_fields other_rules_keep)

lemma tracked_run: "tracked h0 e \<Longrightarrow> tracked h0 (foldl (ProcessLine ops) e ls)"
  by (induction ls arbitrary: e) (simp_all add: tracked_step)

lemma hasMoved_run:
  "hasMoved (foldl (ProcessLine ops) e ls) =
     (hasMoved e \<or> (\<exists>l\<in>set ls. length (FindStringSubmatch locRegex l) = 4))"
  by (induction ls arbitrary: e) (auto simp: hasMoved_step)

lemma tracked_ProcessLines:
  "tracked (fzero ops) (ProcessLines ops (NewEngine ops) iz ls)"
  unfolding ProcessLines_def
  by (rule tracked_run) (simp add: tracked_def enterLoop_def NewEngine_def)

lemma hasMoved_ProcessLines:
  "hasMoved (ProcessLines ops e iz ls) = (\<exists>l\<in>set ls. length (FindStringSubmatch locRegex l) = 4)"
  unfolding ProcessLines_def by (simp add: hasMoved_run enterLoop_def)

lemma heading_step:
  assumes "length (FindStringSubmatch locRegex line) = 4" and "tracked h0 e"
  shows "Heading (CurrentState (ProcessLine ops e line)) =
           (if \<not> hasMoved e then h0
            else if fgt ops (Abs ops (fsub ops (X (CurrentState (ProcessLine ops e line))) (X (CurrentState e)))) (tenth ops)
                  \<or> fgt ops (Abs ops (fsub ops (Y (CurrentState (ProcessLine ops e line))) (Y (CurrentState e)))) (tenth ops)
                 then Atan2 ops (fsub ops (Y (CurrentState (ProcessLine ops e line))) (Y (CurrentState e)))
                                (fsub ops (X (CurrentState (ProcessLine ops e line))) (X (CurrentState e)))
                 else Heading (CurrentState e))"
  using assms
  by (simp add: tracked_def ProcessLine_def positionRule_fields positionRule_Heading)

text \<open>Facts for running the engine on concrete lines.\<close>

lemmas engine_eval =
  ProcessLines_def ProcessLine_def enterLoop_def NewEngine_def positionRule_def zoneRule_def
  deathRule_def recoveryRule_def isRecovery_def locRegex_def zoneRegex_def HasPrefix_def
  HasSuffix_def numChar_def notNewline_def Let_def lit_ops_def Atoi_def

lemma rule_fields:
  "Zone (CurrentState (positionRule ops e m)) = Zone (CurrentState e)"
  "HasCorpse (CurrentState (positionRule ops e m)) = HasCorpse (CurrentState e)"
  "HasCorpse (CurrentState (zoneRule e m)) = HasCorpse (CurrentState e)"
  "HasCorpse (CurrentState (deathRule e))"
  "\<not> HasCorpse (CurrentState (recoveryRule e))"
  "CorpseX (CurrentState (deathRule e)) = X (CurrentState e)"
  "CorpseY (CurrentState (deathRule e)) = Y (CurrentState e)"
  "CorpseZone (CurrentState (deathRule e)) = Zone (CurrentState e)"
  "Zone (CurrentState (deathRule e)) = Zone (CurrentState e)"
  by (simp_all add: positionRule_def zoneRule_def deathRule_def recoveryRule_def Let_def)

lemma zoneRule_Zone:
  "Zone (CurrentState (zoneRule e m)) =
     (if Contains (m ! 1) ''(PvP)'' \<or> HasSuffix (m ! 1) '' area'' then Zone (CurrentState e)
      else m ! 1)"
  by (simp add: zoneRule_def Let_def)

section \<open>Claims about the State Engine\<close>

text \<open>
  Claim C1. Whenever a consumed line matches the position pattern, the three captured
  groups are the fields \<open>f1\<close>, \<open>f2\<close>, \<open>f3\<close> of a piece
  \<open>Your Location is f1, f2, f3\<close> of the line, and after the line the engine stores
  \<open>x = -f2\<close>, \<open>y = -f1\<close> and \<open>z = f3\<close>. This holds for every state the engine was in
  before the line, so it does not depend on the distance from the previous sample.
  (\<open>locRegex_complete\<close> shows that a line of this form matches with these groups.)
\<close>

theorem position_stored:
  assumes "length (FindStringSubmatch locRegex line) = 4"
  shows "let m = FindStringSubmatch locRegex line;
             after = CurrentState (ProcessLines ops e iz (pre @ [line]))
         in (\<exists>p q. line = p @ ''Your Location is '' @ m ! 1 @ '', '' @ m ! 2 @ '', '' @ m ! 3 @ q)
            \<and> X after = fneg ops (ParseFloat ops (m ! 2))
            \<and> Y after = fneg ops (ParseFloat ops (m ! 1))
            \<and> Z after = ParseFloat ops (m ! 3)"
  unfolding Let_def ProcessLines_snoc
  using assms locRegex_fields[OF assms]
  by (simp add: ProcessLine_def positionRule_fields)

text \<open>The line \<open>Your Location is 10, 20, 3\<close> stores \<open>x = -20\<close>, \<open>y = -10\<close>, \<open>z = 3\<close>.\<close>

theorem position_stored_witness:
  "length (FindStringSubmatch locRegex ''Your Location is 10, 20, 3'') = 4
   \<and> FindStringSubmatch locRegex ''Your Location is 10, 20, 3'' ! 1 = ''10''
   \<and> FindStringSubmatch locRegex ''Your Location is 10, 20, 3'' ! 2 = ''20''
   \<and> FindStringSubmatch locRegex ''Your Location is 10, 20, 3'' ! 3 = ''3''
   \<and> X (CurrentState (ProcessLines lit_ops (NewEngine lit_ops) [] [''Your Location is 10, 20, 3''])) = - 20
   \<and> Y (CurrentState (ProcessLines lit_ops (NewEngine lit_ops) [] [''Your Location is 10, 20, 3''])) = - 10
   \<and> Z (CurrentState (ProcessLines lit_ops (NewEngine lit_ops) [] [''Your Location is 10, 20, 3''])) = 3"
proof -
  have m: "FindStringSubmatch locRegex ''Your Location is 10, 20, 3''
             = [''Your Location is 10, 20, 3'', ''10'', ''20'', ''3'']"
    by (simp add: locRegex_def HasPrefix_def numChar_def)
  then have h: "length (FindStringSubmatch locRegex ''Your Location is 10, 20, 3'') = 4" by simp
  have p: "ParseFloat lit_ops ''10'' = 10" "ParseFloat lit_ops ''20'' = 20"
    "ParseFloat lit_ops ''3'' = 3" "fneg lit_ops = uminus"
    by (simp_all add: lit_ops_def Atoi_def)
  from position_stored[OF h, of lit_ops "NewEngine lit_ops" "[]" "[]"]
  show ?thesis unfolding Let_def m by (simp add: p)
qed

text \<open>
  Claim C2, amended. The position rule comes first and ends the iteration, so the zone rule
  only sees lines that do not match the position pattern. For every such line that
  matches \<open>You have entered X.\<close>: if \<open>X\<close> contains \<open>(PvP)\<close> or ends with \<open> area\<close> the
  zone is unchanged, and otherwise the zone is \<open>X\<close> afterwards.
\<close>

theorem zone_rule:
  assumes "length (FindStringSubmatch locRegex line) \<noteq> 4"
    and "length (FindStringSubmatch zoneRegex line) = 2"
  shows "let name = FindStringSubmatch zoneRegex line ! 1;
             before = CurrentState (ProcessLines ops e iz pre);
             after = CurrentState (ProcessLines ops e iz (pre @ [line]))
         in Zone after =
              (if Contains name ''(PvP)'' \<or> HasSuffix name '' area'' then Zone before else name)"
  unfolding Let_def ProcessLines_snoc
  using assms by (simp add: ProcessLine_def zoneRule_Zone)

text \<open>
  \<open>You have entered The Nexus.\<close> sets the zone to \<open>The Nexus\<close>, and a following
  \<open>You have entered an Arena (PvP) area.\<close> leaves it unchanged.
\<close>

theorem zone_rule_witness:
  "Zone (CurrentState (ProcessLines lit_ops (NewEngine lit_ops) [] [''You have entered The Nexus.'']))
     = ''The Nexus''
   \<and> Zone (CurrentState (ProcessLines lit_ops (NewEngine lit_ops) []
        [''You have entered The Nexus.'', ''You have entered an Arena (PvP) area.'']))
     = ''The Nexus''"
proof -
  let ?nexus = "''You have entered The Nexus.''"
  let ?arena = "''You have entered an Arena (PvP) area.''"
  have l1: "length (FindStringSubmatch locRegex ?nexus) \<noteq> 4"
    and l2: "length (FindStringSubmatch locRegex ?arena) \<noteq> 4"
    by (simp_all add: locRegex_def HasPrefix_def)
  have z1: "FindStringSubmatch zoneRegex ?nexus = [?nexus, ''The Nexus'']"
    and z2: "FindStringSubmatch zoneRegex ?arena = [?arena, ''an Arena (PvP) area'']"
    by (simp_all add: zoneRegex_def HasPrefix_def notNewline_def)
  have h1: "length (FindStringSubmatch zoneRegex ?nexus) = 2"
    and h2: "length (FindStringSubmatch zoneRegex ?arena) = 2"
    unfolding z1 z2 by simp_all
  have c: "\<not> Contains ''The Nexus'' ''(PvP)''" "\<not> HasSuffix ''The Nexus'' '' area''"
    "Contains ''an Arena (PvP) area'' ''(PvP)''"
    by (simp_all add: HasPrefix_def HasSuffix_def)
  from zone_rule[OF l1 h1, of lit_ops "NewEngine lit_ops" "[]" "[]"]
  have a: "Zone (CurrentState (ProcessLines lit_ops (NewEngine lit_ops) [] [?nexus])) = ''The Nexus''"
    unfolding Let_def z1 by (simp add: c del: Contains.simps)
  from zone_rule[OF l2 h2, of lit_ops "NewEngine lit_ops" "[]" "[?nexus]"]
  have "Zone (CurrentState (ProcessLines lit_ops (NewEngine lit_ops) [] [?nexus, ?arena]))
          = Zone (CurrentState (ProcessLines lit_ops (NewEngine lit_ops) [] [?nexus]))"
    unfolding Let_def z2 by (simp add: c del: Contains.simps)
  with a show ?thesis by simp
qed

text \<open>
  Claim C2 as stated fails on a line that matches both patterns: the zone pattern captures
  \<open>The Nexus\<close>, which passes the filter and differs from the empty current zone, yet the
  zone stays empty because the position rule has consumed the line.
\<close>

theorem zone_rule_counterexample:
  "FindStringSubmatch zoneRegex ''Your Location is 1, 2, 3 and You have entered The Nexus.''
     = [''You have entered The Nexus.'', ''The Nexus'']
   \<and> \<not> Contains ''The Nexus'' ''(PvP)'' \<and> \<not> HasSuffix ''The Nexus'' '' area''
   \<and> Zone (CurrentState (enterLoop lit_ops [] (NewEngine lit_ops))) = []
   \<and> Zone (CurrentState (ProcessLines lit_ops (NewEngine lit_ops) []
        [''Your Location is 1, 2, 3 and You have entered The Nexus.''])) = []"
  by (simp add: engine_eval)

text \<open>
  Claim C4. Start from a new engine and let a line match the position pattern. If no
  earlier line matched it (the first sample ever), the heading is still the zero value.
  Otherwise, with \<open>(dx, dy)\<close> the difference between the new stored position and the
  position stored before the line, the heading is \<open>Atan2 dy dx\<close> when \<open>|dx| > 0.1\<close> or
  \<open>|dy| > 0.1\<close>, and it is unchanged when neither comparison holds (in particular when
  \<open>|dx| \<le> 0.1\<close> and \<open>|dy| \<le> 0.1\<close>).
\<close>

theorem heading_rule:
  assumes "length (FindStringSubmatch locRegex line) = 4"
  shows "let before = CurrentState (ProcessLines ops (NewEngine ops) iz pre);
             after = CurrentState (ProcessLines ops (NewEngine ops) iz (pre @ [line]));
             dx = fsub ops (X after) (X before);
             dy = fsub ops (Y after) (Y before)
         in Heading after =
            (if \<forall>l\<in>set pre. length (FindStringSubmatch locRegex l) \<noteq> 4 then fzero ops
             else if fgt ops (Abs ops dx) (tenth ops) \<or> fgt ops (Abs ops dy) (tenth ops)
                  then Atan2 ops dy dx
                  else Heading before)"
proof -
  let ?b = "ProcessLines ops (NewEngine ops) iz pre"
  have first: "(\<forall>l\<in>set pre. length (FindStringSubmatch locRegex l) \<noteq> 4) = (\<not> hasMoved ?b)"
    by (simp add: hasMoved_ProcessLines)
  show ?thesis
    unfolding Let_def first ProcessLines_snoc
    by (rule heading_step[OF assms tracked_ProcessLines])
qed

text \<open>
  Converted positions \<open>(0, 0)\<close>, then \<open>(5, 5)\<close>, then \<open>(5, 5)\<close> again: the heading is zero,
  then \<open>atan2 5 5 = \<pi>/4\<close>, then unchanged.
\<close>

theorem heading_rule_witness:
  "Heading (CurrentState (ProcessLines lit_ops (NewEngine lit_ops) []
      [''Your Location is 0, 0, 0''])) = 0
   \<and> Heading (CurrentState (ProcessLines lit_ops (NewEngine lit_ops) []
      [''Your Location is 0, 0, 0'', ''Your Location is -5, -5, 0''])) = atan2_real 5 5
   \<and> Heading (CurrentState (ProcessLines lit_ops (NewEngine lit_ops) []
      [''Your Location is 0, 0, 0'', ''Your Location is -5, -5, 0'',
       ''Your Location is -5, -5, 7''])) = atan2_real 5 5
   \<and> atan2_real 5 5 = pi / 4"
proof -
  let ?l0 = "''Your Location is 0, 0, 0''"
  let ?l1 = "''Your Location is -5, -5, 0''"
  let ?l2 = "''Your Location is -5, -5, 7''"
  let ?run = "\<lambda>ls. CurrentState (ProcessLines lit_ops (NewEngine lit_ops) [] ls)"
  have h0: "length (FindStringSubmatch locRegex ?l0) = 4"
    and h1: "length (FindStringSubmatch locRegex ?l1) = 4"
    and h2: "length (FindStringSubmatch locRegex ?l2) = 4"
    by (simp_all add: locRegex_def HasPrefix_def numChar_def)
  have ops: "fzero lit_ops = 0" "fsub lit_ops = (-)" "Abs lit_ops = abs" "fgt lit_ops = (>)"
    "tenth lit_ops = 1 / 10" "Atan2 lit_ops = atan2_real"
    by (simp_all add: lit_ops_def)
  have xy: "X (?run [?l0]) = 0" "Y (?run [?l0]) = 0"
    "X (?run [?l0, ?l1]) = 5" "Y (?run [?l0, ?l1]) = 5"
    "X (?run [?l0, ?l1, ?l2]) = 5" "Y (?run [?l0, ?l1, ?l2]) = 5"
    by (simp_all add: engine_eval)
  from heading_rule[OF h0, of lit_ops "[]" "[]"]
  have a: "Heading (?run [?l0]) = 0"
    unfolding Let_def by (simp add: ops)
  from heading_rule[OF h1, of lit_ops "[]" "[?l0]"]
  have b: "Heading (?run [?l0, ?l1]) = atan2_real 5 5"
    unfolding Let_def using h0 by (simp add: ops xy)
  from heading_rule[OF h2, of lit_ops "[]" "[?l0, ?l1]"]
  have c: "Heading (?run [?l0, ?l1, ?l2]) = atan2_real 5 5"
    unfolding Let_def using h0 by (simp add: ops xy b)
  have "atan2_real 5 5 = pi / 4" by (simp add: atan2_real_def arctan_one)
  with a b c show ?thesis by simp
qed

text \<open>
  Claim C5, amended. The position rule and the zone rule come first and end the iteration.
  For every consumed line that matches neither pattern and contains
  \<open>You have been slain\<close>, the engine sets the corpse flag and copies the current position
  and zone into the corpse fields, whatever the corpse flag and fields were before.
\<close>

theorem death_rule:
  assumes "length (FindStringSubmatch locRegex line) \<noteq> 4"
    and "length (FindStringSubmatch zoneRegex line) \<noteq> 2"
    and "Contains line ''You have been slain''"
  shows "let before = CurrentState (ProcessLines ops e iz pre);
             after = CurrentState (ProcessLines ops e iz (pre @ [line]))
         in HasCorpse after \<and> CorpseX after = X before \<and> CorpseY after = Y before
            \<and> CorpseZone after = Zone before"
  unfolding Let_def ProcessLines_snoc
  using assms by (simp add: ProcessLine_def rule_fields del: Contains.simps)

text \<open>A second death, at another place, overwrites the corpse location of the first.\<close>

theorem death_rule_witness:
  "HasCorpse (CurrentState (ProcessLines lit_ops (NewEngine lit_ops) []
      [''You have entered The Nexus.'', ''Your Location is -5, -7, 0'',
       ''You have been slain by a gnoll!'', ''Your Location is -9, -9, 0'',
       ''You have been slain by a gnoll!'']))
   \<and> CorpseX (CurrentState (ProcessLines lit_ops (NewEngine lit_ops) []
      [''You have entered The Nexus.'', ''Your Location is -5, -7, 0'',
       ''You have been slain by a gnoll!'', ''Your Location is -9, -9, 0'',
       ''You have been slain by a gnoll!''])) = 9
   \<and> CorpseY (CurrentState (ProcessLines lit_ops (NewEngine lit_ops) []
      [''You have entered The Nexus.'', ''Your Location is -5, -7, 0'',
       ''You have been slain by a gnoll!'', ''Your Location is -9, -9, 0'',
       ''You have been slain by a gnoll!''])) = 9
   \<and> CorpseZone (CurrentState (ProcessLines lit_ops (NewEngine lit_ops) []
      [''You have entered The Nexus.'', ''Your Location is -5, -7, 0'',
       ''You have been slain by a gnoll!'', ''Your Location is -9, -9, 0'',
       ''You have been slain by a gnoll!''])) = ''The Nexus''
   \<and> HasCorpse (CurrentState (ProcessLines lit_ops (NewEngine lit_ops) []
      [''You have entered The Nexus.'', ''Your Location is -5, -7, 0'',
       ''You have been slain by a gnoll!'', ''Your Location is -9, -9, 0'']))
   \<and> CorpseX (CurrentState (ProcessLines lit_ops (NewEngine lit_ops) []
      [''You have entered The Nexus.'', ''Your Location is -5, -7, 0'',
       ''You have been slain by a gnoll!'', ''Your Location is -9, -9, 0''])) = 7"
proof -
  let ?slain = "''You have been slain by a gnoll!''"
  let ?pre = "[''You have entered The Nexus.'', ''Your Location is -5, -7, 0'',
               ''You have been slain by a gnoll!'', ''Your Location is -9, -9, 0'']"
  let ?run = "\<lambda>ls. CurrentState (ProcessLines lit_ops (NewEngine lit_ops) [] ls)"
  have h1: "length (FindStringSubmatch locRegex ?slain) \<noteq> 4"
    by (simp add: locRegex_def HasPrefix_def)
  have h2: "length (FindStringSubmatch zoneRegex ?slain) \<noteq> 2"
    by (simp add: zoneRegex_def HasPrefix_def)
  have h3: "Contains ?slain ''You have been slain''"
    by (simp add: HasPrefix_def)
  have before: "X (?run ?pre) = 9" "Y (?run ?pre) = 9" "Zone (?run ?pre) = ''The Nexus''"
    "HasCorpse (?run ?pre)" "CorpseX (?run ?pre) = 7"
    by (simp_all add: engine_eval)
  from death_rule[OF h1 h2 h3, of lit_ops "NewEngine lit_ops" "[]" ?pre]
  show ?thesis unfolding Let_def by (simp add: before del: Contains.simps)
qed

text \<open>
  Claim C5 as stated fails on a line that also matches the zone pattern: the line
  contains \<open>You have been slain\<close> and the corpse flag stays clear.
\<close>

theorem death_rule_counterexample:
  "Contains ''You have entered Qeynos. You have been slain by a gnoll!'' ''You have been slain''
   \<and> \<not> HasCorpse (CurrentState (ProcessLines lit_ops (NewEngine lit_ops) []
        [''You have entered Qeynos. You have been slain by a gnoll!'']))"
  by (simp add: engine_eval)

text \<open>
  Claim C6, amended. A consumed line that matches neither the position pattern nor the
  zone pattern, does not contain \<open>You have been slain\<close> and contains one of the recovery
  phrases clears the corpse flag, and no other line clears it.
\<close>

theorem recovery_rule:
  "let before = CurrentState (ProcessLines ops e iz pre);
       after = CurrentState (ProcessLines ops e iz (pre @ [line]));
       unclaimed = (length (FindStringSubmatch locRegex line) \<noteq> 4
                    \<and> length (FindStringSubmatch zoneRegex line) \<noteq> 2
                    \<and> \<not> Contains line ''You have been slain'')
   in (unclaimed \<and> isRecovery line \<longrightarrow> \<not> HasCorpse after)
      \<and> (HasCorpse before \<and> \<not> HasCorpse after \<longrightarrow> unclaimed \<and> isRecovery line)"
  unfolding Let_def ProcessLines_snoc
  by (simp add: ProcessLine_def rule_fields del: Contains.simps)

text \<open>After a death the line \<open>Your corpse decays\<close> clears the flag.\<close>

theorem recovery_rule_witness:
  "HasCorpse (CurrentState (ProcessLines lit_ops (NewEngine lit_ops) []
      [''You have been slain by a gnoll!'']))
   \<and> isRecovery ''Your corpse decays''
   \<and> \<not> HasCorpse (CurrentState (ProcessLines lit_ops (NewEngine lit_ops) []
      [''You have been slain by a gnoll!'', ''Your corpse decays'']))"
proof -
  let ?run = "\<lambda>ls. CurrentState (ProcessLines lit_ops (NewEngine lit_ops) [] ls)"
  have h: "length (FindStringSubmatch locRegex ''Your corpse decays'') \<noteq> 4"
    "length (FindStringSubmatch zoneRegex ''Your corpse decays'') \<noteq> 2"
    "\<not> Contains ''Your corpse decays'' ''You have been slain''"
    by (simp_all add: locRegex_def zoneRegex_def HasPrefix_def)
  have r: "isRecovery ''Your corpse decays''"
    by (simp add: isRecovery_def HasPrefix_def)
  have b: "HasCorpse (?run [''You have been slain by a gnoll!''])"
    by (simp add: engine_eval)
  note clears = recovery_rule[of lit_ops "NewEngine lit_ops" "[]"
      "[''You have been slain by a gnoll!'']" "''Your corpse decays''", unfolded Let_def, THEN conjunct1, rule_format]
  have "\<not> HasCorpse (?run ([''You have been slain by a gnoll!''] @ [''Your corpse decays'']))"
    by (rule clears) (intro conjI h r)
  then have a: "\<not> HasCorpse (?run [''You have been slain by a gnoll!'', ''Your corpse decays''])"
    by (simp only: append_Cons append_Nil simp_thms)
  show ?thesis by (intro conjI b r a)
qed

text \<open>
  Claim C6 as stated fails on a line that contains \<open>corpse decays\<close> and also matches the
  zone pattern: the corpse flag is still set after it.
\<close>

theorem recovery_rule_counterexample:
  "HasCorpse (CurrentState (ProcessLines lit_ops (NewEngine lit_ops) []
      [''You have been slain by a gnoll!'']))
   \<and> Contains ''Bob says You have entered the pit. Your corpse decays in 5 minutes'' ''corpse decays''
   \<and> HasCorpse (CurrentState (ProcessLines lit_ops (NewEngine lit_ops) []
      [''You have been slain by a gnoll!'',
       ''Bob says You have entered the pit. Your corpse decays in 5 minutes'']))"
  by (simp add: engine_eval)

text \<open>
  Claim C10. Let a line (without line feed) contain \<open>You have entered \<close> followed by a
  non-empty text and a period. Then the zone pattern matches, the captured name starts
  after the first occurrence of \<open>You have entered \<close> and ends just before the last period
  of the line, and the initial-zone detection of the Tailer, which uses the same pattern,
  records the same name.
\<close>

theorem zone_capture:
  assumes "CHR 0x0A \<notin> set line"
    and "line = pre @ ''You have entered '' @ body @ ''.'' @ rest" and "body \<noteq> []"
  shows "\<exists>p z r. line = p @ ''You have entered '' @ z @ ''.'' @ r \<and> z \<noteq> []
           \<and> CHR ''.'' \<notin> set r
           \<and> (\<forall>u v. line = u @ ''You have entered '' @ v \<longrightarrow> length p \<le> length u)
           \<and> FindStringSubmatch zoneRegex line = [''You have entered '' @ z @ ''.'', z]
           \<and> scanLastZone [line] = z
           \<and> InitialZone (detectInitialZone rd (Some [line])) = z"
proof -
  from zoneRegex_first_last[OF assms] obtain p z r where
    *: "line = p @ ''You have entered '' @ z @ ''.'' @ r" "z \<noteq> []" "CHR ''.'' \<notin> set r"
       "\<forall>u v. line = u @ ''You have entered '' @ v \<longrightarrow> length p \<le> length u"
       "FindStringSubmatch zoneRegex line = [''You have entered '' @ z @ ''.'', z]"
    by blast
  have s: "scanLastZone [line] = z" unfolding scanLastZone_def by (simp add: *(5))
  have i: "InitialZone (detectInitialZone rd (Some [line])) = z"
    by (simp add: detectInitialZone_def Let_def s *(2))
  show ?thesis
    by (intro exI[of _ p] exI[of _ z] exI[of _ r] conjI) (rule * s i)+
qed

text \<open>
  \<open>You have entered The Nexus. It is raining.\<close> captures \<open>The Nexus. It is raining\<close>.
\<close>

theorem zone_capture_witness:
  "FindStringSubmatch zoneRegex ''You have entered The Nexus. It is raining.''
     = [''You have entered The Nexus. It is raining.'', ''The Nexus. It is raining'']
   \<and> InitialZone (detectInitialZone (NewReader ''/eq'')
         (Some [''You have entered The Nexus. It is raining.''])) = ''The Nexus. It is raining''"
proof -
  let ?line = "''You have entered The Nexus. It is raining.''"
  have nl: "CHR 0x0A \<notin> set ?line" by simp
  have l: "?line = [] @ ''You have entered '' @ ''The Nexus'' @ ''.'' @ '' It is raining.''" by simp
  have b: "''The Nexus'' \<noteq> []" by simp
  from zone_capture[OF nl l b, of "NewReader ''/eq''"] obtain z where
    *: "FindStringSubmatch zoneRegex ?line = [''You have entered '' @ z @ ''.'', z]"
       "InitialZone (detectInitialZone (NewReader ''/eq'') (Some [?line])) = z"
    by auto
  have "FindStringSubmatch zoneRegex ?line = [?line, ''The Nexus. It is raining'']"
    by (simp add: zoneRegex_def HasPrefix_def notNewline_def)
  with * show ?thesis by simp
qed

section \<open>The earlier revision compared\<close>

text \<open>
  In the earlier revision a line never changes \<open>Z\<close> or \<open>CorpseZone\<close>, a position line
  stores \<open>x\<close> and \<open>y\<close> as the later revision does, and the zone rule accepts every captured
  name.
\<close>

lemma early_keeps_Z_and_CorpseZone:
  "Z (CurrentState (ProcessLine_early ops e line)) = Z (CurrentState e)
   \<and> CorpseZone (CurrentState (ProcessLine_early ops e line)) = CorpseZone (CurrentState e)"
  by (simp add: ProcessLine_early_def positionRule_early_def zoneRule_early_def
      deathRule_early_def recoveryRule_def Let_def del: Contains.simps)

lemma early_position:
  assumes "length (FindStringSubmatch locRegex line) = 4"
  shows "X (CurrentState (ProcessLine_early ops e line))
           = fneg ops (ParseFloat ops (FindStringSubmatch locRegex line ! 2))
       \<and> Y (CurrentState (ProcessLine_early ops e line))
           = fneg ops (ParseFloat ops (FindStringSubmatch locRegex line ! 1))"
  using assms
  by (simp add: ProcessLine_early_def positionRule_early_def zoneRule_early_def
      deathRule_early_def recoveryRule_def Let_def del: Contains.simps)

lemma early_zone_unfiltered:
  "Zone (CurrentState (ProcessLine_early lit_ops (enterLoop lit_ops [] (NewEngine lit_ops))
      ''You have entered an Arena (PvP) area.'')) = ''an Arena (PvP) area''"
  by (simp add: ProcessLine_early_def zoneRule_early_def deathRule_early_def recoveryRule_def
      locRegex_def zoneRegex_def HasPrefix_def notNewline_def enterLoop_def NewEngine_def Let_def)

section \<open>Properties of the Zone Map Loader\<close>

lemma updateBounds_fields:
  "ZoneMap.Lines (updateBounds zm x y) = ZoneMap.Lines zm"
  "Labels (updateBounds zm x y) = Labels zm"
  "Name (updateBounds zm x y) = Name zm"
  by (simp_all add: updateBounds_def Let_def)

lemma updateBounds_MinX: "MinX (updateBounds zm x y) = (if flt x (MinX zm) then x else MinX zm)"
  and updateBounds_MaxX: "MaxX (updateBounds zm x y) = (if flt (MaxX zm) x then x else MaxX zm)"
  and updateBounds_MinY: "MinY (updateBounds zm x y) = (if flt y (MinY zm) then y else MinY zm)"
  and updateBounds_MaxY: "MaxY (updateBounds zm x y) = (if flt (MaxY zm) y then y else MaxY zm)"
  by (simp_all add: updateBounds_def Let_def)

text \<open>The three outcomes of one iteration of \<open>parseFile\<close>.\<close>

lemma parseStep_cases:
  "parseStep pf (zm, c) raw = (zm, c)
   \<or> (\<exists>l. parseStep pf (zm, c) raw =
          (updateBounds (updateBounds (zm\<lparr>ZoneMap.Lines := ZoneMap.Lines zm @ [l]\<rparr>) (X1 l) (Y1 l))
             (X2 l) (Y2 l), c + 1))
   \<or> (\<exists>p. parseStep pf (zm, c) raw = (zm\<lparr>Labels := Labels zm @ [p]\<rparr>, c + 1))"
  unfolding parseStep_def Let_def
  by (auto split: option.splits simp del: Split.simps)

lemma parseStep_Lines:
  "ZoneMap.Lines (fst (parseStep pf (zm, c) raw)) = ZoneMap.Lines zm @ newLines pf raw"
  unfolding newLines_def parseStep_def Let_def
  by (simp add: updateBounds_fields emptyMap_def split: option.splits prod.splits)

lemma parseStep_Labels:
  "Labels (fst (parseStep pf (zm, c) raw)) = Labels zm @ newLabels pf raw"
  unfolding newLabels_def parseStep_def Let_def
  by (simp add: updateBounds_fields emptyMap_def split: option.splits prod.splits)

lemma parseStep_count:
  "snd (parseStep pf (zm, c) raw) = c + length (newLines pf raw) + length (newLabels pf raw)"
  unfolding newLines_def newLabels_def parseStep_def Let_def
  by (simp add: updateBounds_fields emptyMap_def split: option.splits prod.splits)

lemma parseStep_Name: "Name (fst (parseStep pf (zm, c) raw)) = Name zm"
  unfolding parseStep_def Let_def
  by (simp add: updateBounds_fields split: option.splits prod.splits)

text \<open>The loop of \<open>parseFile\<close>.\<close>

lemma parseLines_effect:
  "ZoneMap.Lines (fst (foldl (parseStep pf) (zm, c) raws)) = ZoneMap.Lines zm @ fileLines pf raws
   \<and> Labels (fst (foldl (parseStep pf) (zm, c) raws)) = Labels zm @ fileLabels pf raws
   \<and> Name (fst (foldl (parseStep pf) (zm, c) raws)) = Name zm
   \<and> snd (foldl (parseStep pf) (zm, c) raws)
       = c + length (fileLines pf raws) + length (fileLabels pf raws)"
proof (induction raws arbitrary: zm c)
  case Nil
  then show ?case by (simp add: fileLines_def fileLabels_def)
next
  case (Cons raw raws)
  obtain zm' c' where st: "parseStep pf (zm, c) raw = (zm', c')" by (cases "parseStep pf (zm, c) raw")
  have zm': "ZoneMap.Lines zm' = ZoneMap.Lines zm @ newLines pf raw"
    "Labels zm' = Labels zm @ newLabels pf raw" "Name zm' = Name zm"
    "c' = c + length (newLines pf raw) + length (newLabels pf raw)"
    using parseStep_Lines[of pf zm c raw] parseStep_Labels[of pf zm c raw]
      parseStep_Name[of pf zm c raw] parseStep_count[of pf zm c raw]
    by (simp_all add: st)
  show ?case using Cons.IH[of zm' c']
    by (simp add: st zm' fileLines_def fileLabels_def)
qed

lemma nums_append: "nums (xs @ ys) = nums xs @ nums ys"
  by (induction xs rule: nums.induct) simp_all

lemma lower_step:
  assumes "m = Num (Min (set (s # as)))"
  shows "(if flt x m then x else m) = Num (Min (set (s # as @ nums [x])))"
proof (cases x)
  case NaN
  then show ?thesis using assms by simp
next
  case (Num a)
  define M where "M = Min (set (s # as))"
  have "set (s # as @ nums [x]) = insert a (set (s # as))" using Num by auto
  moreover have "Min (insert a (set (s # as))) = min a M"
    unfolding M_def by (rule Min_insert) simp_all
  moreover have "(if flt x m then x else m) = Num (min a M)"
    using assms Num unfolding M_def[symmetric] by (auto simp: min_def)
  ultimately show ?thesis by simp
qed

lemma upper_step:
  assumes "m = Num (Max (set (s # as)))"
  shows "(if flt m x then x else m) = Num (Max (set (s # as @ nums [x])))"
proof (cases x)
  case NaN
  then show ?thesis using assms by simp
next
  case (Num a)
  define M where "M = Max (set (s # as))"
  have "set (s # as @ nums [x]) = insert a (set (s # as))" using Num by auto
  moreover have "Max (insert a (set (s # as))) = max a M"
    unfolding M_def by (rule Max_insert) simp_all
  moreover have "(if flt m x then x else m) = Num (max a M)"
    using assms Num unfolding M_def[symmetric] by (auto simp: max_def)
  ultimately show ?thesis by simp
qed

lemma lower_step2:
  assumes "m = Num (Min (set (s # as)))"
  shows "(if flt x2 (if flt x1 m then x1 else m) then x2 else (if flt x1 m then x1 else m))
           = Num (Min (set (s # as @ nums [x1, x2])))"
proof -
  have "nums [x1, x2] = nums [x1] @ nums [x2]" by (cases x1) simp_all
  then have "s # as @ nums [x1, x2] = s # (as @ nums [x1]) @ nums [x2]" by simp
  then show ?thesis using lower_step[OF lower_step[OF assms, of x1], of x2] by (simp only:)
qed

lemma upper_step2:
  assumes "m = Num (Max (set (s # as)))"
  shows "(if flt (if flt m x1 then x1 else m) x2 then x2 else (if flt m x1 then x1 else m))
           = Num (Max (set (s # as @ nums [x1, x2])))"
proof -
  have "nums [x1, x2] = nums [x1] @ nums [x2]" by (cases x1) simp_all
  then have "s # as @ nums [x1, x2] = s # (as @ nums [x1]) @ nums [x2]" by simp
  then show ?thesis using upper_step[OF upper_step[OF assms, of x1], of x2] by (simp only:)
qed

lemma boundsOK_segment:
  assumes "boundsOK zm"
  shows "boundsOK (updateBounds (updateBounds (zm\<lparr>ZoneMap.Lines := ZoneMap.Lines zm @ [l]\<rparr>)
            (X1 l) (Y1 l)) (X2 l) (Y2 l))"
proof -
  let ?zm3 = "updateBounds (updateBounds (zm\<lparr>ZoneMap.Lines := ZoneMap.Lines zm @ [l]\<rparr>)
                (X1 l) (Y1 l)) (X2 l) (Y2 l)"
  have ex: "nums (endsX ?zm3) = nums (endsX zm) @ nums [X1 l, X2 l]"
    and ey: "nums (endsY ?zm3) = nums (endsY zm) @ nums [Y1 l, Y2 l]"
    by (simp_all add: endsX_def endsY_def updateBounds_fields nums_append del: nums.simps)
  from assms have b: "MinX zm = Num (Min (set (99999 # nums (endsX zm))))"
    "MaxX zm = Num (Max (set (- 99999 # nums (endsX zm))))"
    "MinY zm = Num (Min (set (99999 # nums (endsY zm))))"
    "MaxY zm = Num (Max (set (- 99999 # nums (endsY zm))))"
    by (simp_all add: boundsOK_def)
  have "MinX ?zm3 = (if flt (X2 l) (if flt (X1 l) (MinX zm) then X1 l else MinX zm) then X2 l
                     else (if flt (X1 l) (MinX zm) then X1 l else MinX zm))"
    by (simp add: updateBounds_MinX)
  then have minx: "MinX ?zm3 = Num (Min (set (99999 # nums (endsX ?zm3))))"
    unfolding ex lower_step2[OF b(1)] .
  have "MaxX ?zm3 = (if flt (if flt (MaxX zm) (X1 l) then X1 l else MaxX zm) (X2 l) then X2 l
                     else (if flt (MaxX zm) (X1 l) then X1 l else MaxX zm))"
    by (simp add: updateBounds_MaxX)
  then have maxx: "MaxX ?zm3 = Num (Max (set (- 99999 # nums (endsX ?zm3))))"
    unfolding ex upper_step2[OF b(2)] .
  have "MinY ?zm3 = (if flt (Y2 l) (if flt (Y1 l) (MinY zm) then Y1 l else MinY zm) then Y2 l
                     else (if flt (Y1 l) (MinY zm) then Y1 l else MinY zm))"
    by (simp add: updateBounds_MinY)
  then have miny: "MinY ?zm3 = Num (Min (set (99999 # nums (endsY ?zm3))))"
    unfolding ey lower_step2[OF b(3)] .
  have "MaxY ?zm3 = (if flt (if flt (MaxY zm) (Y1 l) then Y1 l else MaxY zm) (Y2 l) then Y2 l
                     else (if flt (MaxY zm) (Y1 l) then Y1 l else MaxY zm))"
    by (simp add: updateBounds_MaxY)
  then have maxy: "MaxY ?zm3 = Num (Max (set (- 99999 # nums (endsY ?zm3))))"
    unfolding ey upper_step2[OF b(4)] .
  show ?thesis unfolding boundsOK_def by (intro conjI minx maxx miny maxy)
qed

lemma boundsOK_label: "boundsOK zm \<Longrightarrow> boundsOK (zm\<lparr>Labels := Labels zm @ [p]\<rparr>)"
  by (simp add: boundsOK_def endsX_def endsY_def)

lemma boundsOK_parseStep: "boundsOK zm \<Longrightarrow> boundsOK (fst (parseStep pf (zm, c) raw))"
  using parseStep_cases[of pf zm c raw]
  by (auto simp: boundsOK_segment boundsOK_label)

lemma boundsOK_parseLines:
  "boundsOK zm \<Longrightarrow> boundsOK (fst (foldl (parseStep pf) (zm, c) raws))"
proof (induction raws arbitrary: zm c)
  case Nil
  then show ?case by simp
next
  case (Cons raw raws)
  obtain zm' c' where st: "parseStep pf (zm, c) raw = (zm', c')" by (cases "parseStep pf (zm, c) raw")
  have "boundsOK zm'" using boundsOK_parseStep[OF Cons.prems, of pf c raw] by (simp add: st)
  from Cons.IH[OF this] show ?case by (simp add: st)
qed

text \<open>Loading the targets of a zone.\<close>

lemma parseFile_effect:
  "ZoneMap.Lines (fst (parseFile pf fs zm path))
     = ZoneMap.Lines zm @ fileLines pf (case Open fs path of None \<Rightarrow> [] | Some raws \<Rightarrow> raws)
   \<and> Labels (fst (parseFile pf fs zm path))
     = Labels zm @ fileLabels pf (case Open fs path of None \<Rightarrow> [] | Some raws \<Rightarrow> raws)
   \<and> Name (fst (parseFile pf fs zm path)) = Name zm
   \<and> (case snd (parseFile pf fs zm path) of
         Inl err \<Rightarrow> Open fs path = None
       | Inr n \<Rightarrow> n = length (fileLines pf (case Open fs path of None \<Rightarrow> [] | Some raws \<Rightarrow> raws))
                   + length (fileLabels pf (case Open fs path of None \<Rightarrow> [] | Some raws \<Rightarrow> raws)))"
proof (cases "Open fs path")
  case None
  then show ?thesis by (simp add: parseFile_def fileLines_def fileLabels_def)
next
  case (Some raws)
  then show ?thesis using parseLines_effect[of pf zm 0 raws]
    by (simp add: parseFile_def Let_def)
qed

lemma boundsOK_parseFile: "boundsOK zm \<Longrightarrow> boundsOK (fst (parseFile pf fs zm path))"
  by (cases "Open fs path") (simp_all add: parseFile_def Let_def boundsOK_parseLines)

lemma loadTarget_effect:
  "ZoneMap.Lines (fst (loadTarget pf fs (fileMap allFiles) (zm, found) t))
     = ZoneMap.Lines zm @ fileLines pf (targetFile fs allFiles t)
   \<and> Labels (fst (loadTarget pf fs (fileMap allFiles) (zm, found) t))
     = Labels zm @ fileLabels pf (targetFile fs allFiles t)
   \<and> Name (fst (loadTarget pf fs (fileMap allFiles) (zm, found) t)) = Name zm
   \<and> snd (loadTarget pf fs (fileMap allFiles) (zm, found) t)
     = (found \<or> targetItems pf fs allFiles t > 0)"
proof (cases "fileMap allFiles t")
  case None
  then show ?thesis
    by (simp add: loadTarget_def targetFile_def targetItems_def fileLines_def fileLabels_def)
next
  case (Some realPath)
  obtain zm' r where pfile: "parseFile pf fs zm realPath = (zm', r)"
    by (cases "parseFile pf fs zm realPath")
  have tf: "targetFile fs allFiles t = (case Open fs realPath of None \<Rightarrow> [] | Some raws \<Rightarrow> raws)"
    by (simp add: targetFile_def Some)
  from parseFile_effect[of pf fs zm realPath] have eff:
    "ZoneMap.Lines zm' = ZoneMap.Lines zm @ fileLines pf (targetFile fs allFiles t)"
    "Labels zm' = Labels zm @ fileLabels pf (targetFile fs allFiles t)"
    "Name zm' = Name zm"
    "case r of Inl err \<Rightarrow> Open fs realPath = None
     | Inr n \<Rightarrow> n = targetItems pf fs allFiles t"
    by (auto simp: pfile tf targetItems_def split: sum.splits)
  show ?thesis
  proof (cases r)
    case (Inl err)
    then have "targetFile fs allFiles t = []" using eff(4) tf by simp
    then have "targetItems pf fs allFiles t = 0"
      by (simp add: targetItems_def fileLines_def fileLabels_def)
    then show ?thesis using eff(1-3) Inl by (simp add: loadTarget_def Some pfile)
  next
    case (Inr n)
    then show ?thesis using eff by (simp add: loadTarget_def Some pfile)
  qed
qed

lemma boundsOK_loadTarget:
  "boundsOK zm \<Longrightarrow> boundsOK (fst (loadTarget pf fs fm (zm, found) t))"
proof (cases "fm t")
  case None
  assume "boundsOK zm"
  then show ?thesis using None by (simp add: loadTarget_def)
next
  case (Some realPath)
  assume "boundsOK zm"
  from boundsOK_parseFile[OF this, of pf fs realPath] show ?thesis
    by (cases "parseFile pf fs zm realPath") (auto simp: loadTarget_def Some split: sum.splits)
qed

lemma loadTargets_effect:
  "ZoneMap.Lines (fst (foldl (loadTarget pf fs (fileMap allFiles)) (zm, found) ts))
     = ZoneMap.Lines zm @ concat (map (\<lambda>t. fileLines pf (targetFile fs allFiles t)) ts)
   \<and> Labels (fst (foldl (loadTarget pf fs (fileMap allFiles)) (zm, found) ts))
     = Labels zm @ concat (map (\<lambda>t. fileLabels pf (targetFile fs allFiles t)) ts)
   \<and> Name (fst (foldl (loadTarget pf fs (fileMap allFiles)) (zm, found) ts)) = Name zm
   \<and> snd (foldl (loadTarget pf fs (fileMap allFiles)) (zm, found) ts)
     = (found \<or> (\<exists>t\<in>set ts. targetItems pf fs allFiles t > 0))"
proof (induction ts arbitrary: zm found)
  case Nil
  then show ?case by simp
next
  case (Cons t ts)
  obtain zm' found' where st: "loadTarget pf fs (fileMap allFiles) (zm, found) t = (zm', found')"
    by (cases "loadTarget pf fs (fileMap allFiles) (zm, found) t")
  from loadTarget_effect[of pf fs allFiles zm found t] have eff:
    "ZoneMap.Lines zm' = ZoneMap.Lines zm @ fileLines pf (targetFile fs allFiles t)"
    "Labels zm' = Labels zm @ fileLabels pf (targetFile fs allFiles t)"
    "Name zm' = Name zm"
    "found' = (found \<or> targetItems pf fs allFiles t > 0)"
    by (simp_all add: st)
  show ?case using Cons.IH[of zm' found'] by (auto simp: st eff)
qed

lemma boundsOK_loadTargets:
  "boundsOK zm \<Longrightarrow> boundsOK (fst (foldl (loadTarget pf fs fm) (zm, found) ts))"
proof (induction ts arbitrary: zm found)
  case Nil
  then show ?case by simp
next
  case (Cons t ts)
  obtain zm' found' where st: "loadTarget pf fs fm (zm, found) t = (zm', found')"
    by (cases "loadTarget pf fs fm (zm, found) t")
  have "boundsOK zm'" using boundsOK_loadTarget[OF Cons.prems, of pf fs fm found t] by (simp add: st)
  from Cons.IH[OF this] show ?case by (simp add: st)
qed

lemma boundsOK_newZoneMap: "boundsOK (newZoneMap zoneName)"
  by (simp add: boundsOK_def newZoneMap_def endsX_def endsY_def)

text \<open>Facts for running the loader, and the bounding box of a loaded zone.\<close>

lemmas loader_eval =
  LoadZone_def loadTarget_def parseFile_def parseStep_def makeLine_def makeLabel_def fileMap_def
  targets_def newZoneMap_def updateBounds_def parseColor_def parseInt_def parseFloat_def
  Atoi_def TrimSpace_def isSpace_def TrimLeft_def ToLower_def lowerChar_def ToUpper_def Base_def
  BOM_def HasPrefix_def Let_def pf_lit_def oneFile_def

lemma fileMap_Some_iff:
  "fileMap allFiles t \<noteq> None \<longleftrightarrow> (\<exists>p\<in>set allFiles. ToLower (Base p) = t)"
proof -
  have "\<And>m. foldl (\<lambda>m path. m(ToLower (Base path) \<mapsto> path)) m allFiles t \<noteq> None
          \<longleftrightarrow> (m t \<noteq> None \<or> (\<exists>p\<in>set allFiles. ToLower (Base p) = t))"
    by (induction allFiles) auto
  then show ?thesis by (simp add: fileMap_def)
qed

lemma targetItems_absent: "fileMap allFiles t = None \<Longrightarrow> targetItems pf fs allFiles t = 0"
  by (simp add: targetItems_def targetFile_def fileLines_def fileLabels_def)

lemma nums_mem: "a \<in> set (nums xs) \<longleftrightarrow> Num a \<in> set xs"
  by (induction xs rule: nums.induct) auto

lemma Min_sentinel:
  assumes "a \<in> set as" and "a \<le> s"
  shows "Min (set (s # as)) = Min (set as)"
proof -
  have ne: "set as \<noteq> {}" using assms(1) by auto
  have "Min (set (s # as)) = min s (Min (set as))" using ne by (simp add: Min_insert)
  moreover have "Min (set as) \<le> a" using assms(1) by (simp add: Min_le)
  then have "Min (set as) \<le> s" using assms(2) by (rule order_trans)
  ultimately show ?thesis by (simp add: min_absorb2)
qed

lemma Max_sentinel:
  assumes "a \<in> set as" and "s \<le> a"
  shows "Max (set (s # as)) = Max (set as)"
proof -
  have ne: "set as \<noteq> {}" using assms(1) by auto
  have "Max (set (s # as)) = max s (Max (set as))" using ne by (simp add: Max_insert)
  moreover have "a \<le> Max (set as)" using assms(1) by (simp add: Max_ge)
  with assms(2) have "s \<le> Max (set as)" by (rule order_trans)
  ultimately show ?thesis by (simp add: max_absorb2)
qed

lemma LoadZone_boundsOK:
  assumes "LoadZone pf fs mapDir zoneName = Inr zm"
  shows "boundsOK zm"
proof -
  from assms obtain allFiles where
    "zm = fst (foldl (loadTarget pf fs (fileMap allFiles)) (newZoneMap zoneName, False)
                 (targets zoneName))"
    by (auto simp: LoadZone_def Let_def split: option.splits if_splits)
  then show ?thesis using boundsOK_loadTargets[OF boundsOK_newZoneMap] by simp
qed

lemma box_member:
  assumes "v \<in> set vs" and "v \<noteq> NaN"
  shows "fle (Num (Min (set (lo # nums vs)))) v \<and> fle v (Num (Max (set (hi # nums vs))))"
proof -
  from assms(2) obtain a where a: "v = Num a" by (cases v) auto
  with assms(1) have m: "a \<in> set (nums vs)" by (simp add: nums_mem)
  have "Min (set (lo # nums vs)) \<le> a" using m by (intro Min_le) auto
  moreover have "a \<le> Max (set (hi # nums vs))" using m by (intro Max_ge) auto
  ultimately show ?thesis unfolding a by simp
qed

lemma inside_box:
  assumes "boundsOK zm" and "l \<in> set (ZoneMap.Lines zm)"
  shows "(X1 l \<noteq> NaN \<longrightarrow> fle (MinX zm) (X1 l) \<and> fle (X1 l) (MaxX zm))
       \<and> (X2 l \<noteq> NaN \<longrightarrow> fle (MinX zm) (X2 l) \<and> fle (X2 l) (MaxX zm))
       \<and> (Y1 l \<noteq> NaN \<longrightarrow> fle (MinY zm) (Y1 l) \<and> fle (Y1 l) (MaxY zm))
       \<and> (Y2 l \<noteq> NaN \<longrightarrow> fle (MinY zm) (Y2 l) \<and> fle (Y2 l) (MaxY zm))"
proof -
  have mem: "X1 l \<in> set (endsX zm)" "X2 l \<in> set (endsX zm)"
    "Y1 l \<in> set (endsY zm)" "Y2 l \<in> set (endsY zm)"
    using assms(2) by (auto simp: endsX_def endsY_def)
  from assms(1) have b: "MinX zm = Num (Min (set (99999 # nums (endsX zm))))"
    "MaxX zm = Num (Max (set (- 99999 # nums (endsX zm))))"
    "MinY zm = Num (Min (set (99999 # nums (endsY zm))))"
    "MaxY zm = Num (Max (set (- 99999 # nums (endsY zm))))"
    by (simp_all add: boundsOK_def)
  show ?thesis unfolding b
    using box_member[OF mem(1)] box_member[OF mem(2)] box_member[OF mem(3)] box_member[OF mem(4)]
    by blast
qed

section \<open>Claims about the Zone Map Loader\<close>

text \<open>
  Claim C3, amended. When the directory can be listed, \<open>LoadZone\<close> returns the error
  "no map files found" if and only if every one of the four targets is absent from the
  case-insensitive index of the directory or parsed to zero geometry items; otherwise it
  returns a zone map with the given name whose segments and labels are the
  concatenation, in target order, of the segments and labels of the files of the targets.
\<close>

theorem LoadZone_result:
  assumes "ListDir fs mapDir = Some allFiles"
  shows "(LoadZone pf fs mapDir zoneName = Inl (NoMapFiles zoneName)
            \<longleftrightarrow> (\<forall>t\<in>set (targets zoneName).
                   fileMap allFiles t = None \<or> targetItems pf fs allFiles t = 0))
         \<and> (LoadZone pf fs mapDir zoneName = Inl (NoMapFiles zoneName)
            \<or> (\<exists>zm. LoadZone pf fs mapDir zoneName = Inr zm
                  \<and> Name zm = zoneName
                  \<and> ZoneMap.Lines zm
                      = concat (map (\<lambda>t. fileLines pf (targetFile fs allFiles t)) (targets zoneName))
                  \<and> Labels zm
                      = concat (map (\<lambda>t. fileLabels pf (targetFile fs allFiles t)) (targets zoneName))))"
proof -
  let ?st = "foldl (loadTarget pf fs (fileMap allFiles)) (newZoneMap zoneName, False)
               (targets zoneName)"
  have eff: "ZoneMap.Lines (fst ?st)
               = concat (map (\<lambda>t. fileLines pf (targetFile fs allFiles t)) (targets zoneName))"
    "Labels (fst ?st)
               = concat (map (\<lambda>t. fileLabels pf (targetFile fs allFiles t)) (targets zoneName))"
    "Name (fst ?st) = zoneName"
    "snd ?st = (\<exists>t\<in>set (targets zoneName). targetItems pf fs allFiles t > 0)"
    using loadTargets_effect[of pf fs allFiles "newZoneMap zoneName" False "targets zoneName"]
    by (simp_all add: newZoneMap_def)
  have none: "(\<forall>t\<in>set (targets zoneName).
                 fileMap allFiles t = None \<or> targetItems pf fs allFiles t = 0) = (\<not> snd ?st)"
    unfolding eff(4) using targetItems_absent[of allFiles _ pf fs] by auto
  have lz: "LoadZone pf fs mapDir zoneName
              = (if \<not> snd ?st then Inl (NoMapFiles zoneName) else Inr (fst ?st))"
    by (simp add: LoadZone_def assms Let_def)
  show ?thesis
  proof (cases "snd ?st")
    case True
    then show ?thesis unfolding none lz using eff(1-3) by simp
  next
    case False
    then show ?thesis unfolding none lz by simp
  qed
qed

text \<open>
  A directory whose only file \<open>Nexus.txt\<close> has no geometry gives the error; with one
  segment in the file the zone \<open>nexus\<close> loads and holds the segments of that file.
\<close>

theorem LoadZone_result_witness:
  "LoadZone pf_lit (oneFile [''hello'']) ''maps'' ''nexus'' = Inl (NoMapFiles ''nexus'')
   \<and> targetItems pf_lit (oneFile [''L 1, 2, 0, 3, 4, 0'']) [''maps/Nexus.txt''] ''nexus.txt'' = 1
   \<and> (\<exists>zm. LoadZone pf_lit (oneFile [''L 1, 2, 0, 3, 4, 0'']) ''maps'' ''nexus'' = Inr zm
          \<and> ZoneMap.Lines zm = fileLines pf_lit [''L 1, 2, 0, 3, 4, 0''])"
proof -
  let ?junk = "oneFile [''hello'']"
  let ?good = "oneFile [''L 1, 2, 0, 3, 4, 0'']"
  have l1: "ListDir ?junk ''maps'' = Some [''maps/Nexus.txt'']"
    and l2: "ListDir ?good ''maps'' = Some [''maps/Nexus.txt'']"
    by (simp_all add: oneFile_def)
  have t: "targets ''nexus'' = [''nexus.txt'', ''nexus_1.txt'', ''nexus_2.txt'', ''nexus_3.txt'']"
    by (simp add: targets_def ToLower_def lowerChar_def)
  have fm: "fileMap [''maps/Nexus.txt''] ''nexus.txt'' = Some ''maps/Nexus.txt''"
    "fileMap [''maps/Nexus.txt''] ''nexus_1.txt'' = None"
    "fileMap [''maps/Nexus.txt''] ''nexus_2.txt'' = None"
    "fileMap [''maps/Nexus.txt''] ''nexus_3.txt'' = None"
    by (simp_all add: fileMap_def Base_def ToLower_def lowerChar_def)
  have tf: "targetFile ?junk [''maps/Nexus.txt''] ''nexus.txt'' = [''hello'']"
    "targetFile ?good [''maps/Nexus.txt''] ''nexus.txt'' = [''L 1, 2, 0, 3, 4, 0'']"
    "targetFile ?good [''maps/Nexus.txt''] ''nexus_1.txt'' = []"
    "targetFile ?good [''maps/Nexus.txt''] ''nexus_2.txt'' = []"
    "targetFile ?good [''maps/Nexus.txt''] ''nexus_3.txt'' = []"
    by (simp_all add: targetFile_def fm oneFile_def)
  have n0: "targetItems pf_lit ?junk [''maps/Nexus.txt''] ''nexus.txt'' = 0"
    by (simp add: targetItems_def tf fileLines_def fileLabels_def newLines_def newLabels_def
        parseStep_def TrimSpace_def isSpace_def BOM_def HasPrefix_def ToUpper_def Let_def
        TrimLeft_def updateBounds_def emptyMap_def)
  have n1: "targetItems pf_lit ?good [''maps/Nexus.txt''] ''nexus.txt'' = 1"
    by (simp add: targetItems_def tf fileLines_def fileLabels_def newLines_def newLabels_def
        parseStep_def TrimSpace_def isSpace_def BOM_def HasPrefix_def ToUpper_def Let_def
        TrimLeft_def updateBounds_def emptyMap_def)
  have e: "fileLines pf_lit [] = []" by (simp add: fileLines_def)
  from LoadZone_result[OF l1, of pf_lit "''nexus''"]
  have a: "LoadZone pf_lit ?junk ''maps'' ''nexus'' = Inl (NoMapFiles ''nexus'')"
    by (simp add: t fm n0)
  from LoadZone_result[OF l2, of pf_lit "''nexus''"]
  have b: "\<exists>zm. LoadZone pf_lit ?good ''maps'' ''nexus'' = Inr zm
          \<and> ZoneMap.Lines zm = fileLines pf_lit [''L 1, 2, 0, 3, 4, 0'']"
    by (auto simp: t fm n1 tf e)
  show ?thesis by (intro conjI a n1 b)
qed

text \<open>
  Claim C3 as stated leaves out the third outcome: when the directory cannot be listed
  the result is neither "no map files found" nor a zone map.
\<close>

theorem LoadZone_result_counterexample:
  "LoadZone pf_lit (oneFile [''L 1, 2, 0, 3, 4, 0'']) ''maps['' ''nexus'' = Inl CouldNotList"
  by (simp add: LoadZone_def oneFile_def)

text \<open>
  Claim C7, amended. For every zone map that \<open>LoadZone\<close> returns, \<open>MinX\<close> is the minimum of
  the sentinel 99999 and the first coordinates of both endpoints of every accepted
  segment that are numbers, \<open>MaxX\<close> is the maximum of the sentinel -99999 and these
  coordinates, and likewise \<open>MinY\<close> and \<open>MaxY\<close> for the second coordinates; labels do not
  move the box. Hence each bound equals the running minimum or maximum of the endpoint
  coordinates as soon as one of them lies on the inner side of its sentinel, and every
  endpoint coordinate that is a number lies within the box.
\<close>

theorem bounding_box:
  assumes "LoadZone pf fs mapDir zoneName = Inr zm"
  shows "MinX zm = Num (Min (set (99999 # nums (endsX zm))))
       \<and> MaxX zm = Num (Max (set (- 99999 # nums (endsX zm))))
       \<and> MinY zm = Num (Min (set (99999 # nums (endsY zm))))
       \<and> MaxY zm = Num (Max (set (- 99999 # nums (endsY zm))))
       \<and> ((\<exists>a\<in>set (nums (endsX zm)). a \<le> 99999) \<longrightarrow> MinX zm = Num (Min (set (nums (endsX zm)))))
       \<and> ((\<exists>a\<in>set (nums (endsX zm)). - 99999 \<le> a) \<longrightarrow> MaxX zm = Num (Max (set (nums (endsX zm)))))
       \<and> ((\<exists>a\<in>set (nums (endsY zm)). a \<le> 99999) \<longrightarrow> MinY zm = Num (Min (set (nums (endsY zm)))))
       \<and> ((\<exists>a\<in>set (nums (endsY zm)). - 99999 \<le> a) \<longrightarrow> MaxY zm = Num (Max (set (nums (endsY zm)))))
       \<and> (\<forall>l\<in>set (ZoneMap.Lines zm).
             (X1 l \<noteq> NaN \<longrightarrow> fle (MinX zm) (X1 l) \<and> fle (X1 l) (MaxX zm))
           \<and> (X2 l \<noteq> NaN \<longrightarrow> fle (MinX zm) (X2 l) \<and> fle (X2 l) (MaxX zm))
           \<and> (Y1 l \<noteq> NaN \<longrightarrow> fle (MinY zm) (Y1 l) \<and> fle (Y1 l) (MaxY zm))
           \<and> (Y2 l \<noteq> NaN \<longrightarrow> fle (MinY zm) (Y2 l) \<and> fle (Y2 l) (MaxY zm)))"
proof -
  have ok: "boundsOK zm" using assms by (rule LoadZone_boundsOK)
  then have b: "MinX zm = Num (Min (set (99999 # nums (endsX zm))))"
    "MaxX zm = Num (Max (set (- 99999 # nums (endsX zm))))"
    "MinY zm = Num (Min (set (99999 # nums (endsY zm))))"
    "MaxY zm = Num (Max (set (- 99999 # nums (endsY zm))))"
    by (simp_all add: boundsOK_def)
  have lo: "(\<exists>a\<in>set as. a \<le> s) \<longrightarrow> Num (Min (set (s # as))) = Num (Min (set as))" for s :: 'a and as
    using Min_sentinel[of _ as s] by auto
  have hi: "(\<exists>a\<in>set as. s \<le> a) \<longrightarrow> Num (Max (set (s # as))) = Num (Max (set as))" for s :: 'a and as
    using Max_sentinel[of _ as s] by auto
  have inside: "\<forall>l\<in>set (ZoneMap.Lines zm).
             (X1 l \<noteq> NaN \<longrightarrow> fle (MinX zm) (X1 l) \<and> fle (X1 l) (MaxX zm))
           \<and> (X2 l \<noteq> NaN \<longrightarrow> fle (MinX zm) (X2 l) \<and> fle (X2 l) (MaxX zm))
           \<and> (Y1 l \<noteq> NaN \<longrightarrow> fle (MinY zm) (Y1 l) \<and> fle (Y1 l) (MaxY zm))
           \<and> (Y2 l \<noteq> NaN \<longrightarrow> fle (MinY zm) (Y2 l) \<and> fle (Y2 l) (MaxY zm))"
    using inside_box[OF ok] by blast
  show ?thesis
    apply (intro conjI)
            apply (rule b(1))
           apply (rule b(2))
          apply (rule b(3))
         apply (rule b(4))
        apply (subst b(1), rule lo)
       apply (subst b(2), rule hi)
      apply (subst b(3), rule lo)
     apply (subst b(4), rule hi)
    apply (rule inside)
    done
qed

text \<open>
  Two segments and a label: the box is the minimum and maximum over the endpoints that
  are numbers, and the label at (500, 600) does not extend it.
\<close>

theorem bounding_box_witness:
  "LoadZone pf_lit (oneFile [''L 10, 20, 0, -30, 40, 0'', ''P 500, 600, 0, 0, 0, 0, 2, Bank'',
       ''L nan, 1, 0, 2, 3, 0'']) ''maps'' ''nexus''
   = Inr \<lparr>Name = ''nexus'',
          ZoneMap.Lines = [\<lparr>X1 = Num 10, Y1 = Num 20, Z1 = Num 0, X2 = Num (- 30), Y2 = Num 40, Z2 = Num 0,
                    MapLine.Color = \<lparr>R = 150, G = 150, B = 150, A = 255\<rparr>\<rparr>,
                   \<lparr>X1 = NaN, Y1 = Num 1, Z1 = Num 0, X2 = Num 2, Y2 = Num 3, Z2 = Num 0,
                    MapLine.Color = \<lparr>R = 150, G = 150, B = 150, A = 255\<rparr>\<rparr>],
          Labels = [\<lparr>MapLabel.X = Num 500, MapLabel.Y = Num 600, MapLabel.Z = Num 0,
                     MapLabel.Color = \<lparr>R = 130, G = 130, B = 130, A = 255\<rparr>, Size = 2, Text = ''Bank''\<rparr>],
          MinX = Num (- 30), MaxX = Num 10, MinY = Num 1, MaxY = Num 40\<rparr>
   \<and> Min (set (nums [Num 10, Num (- 30), NaN, Num (2::int)])) = - 30
   \<and> Max (set (nums [Num 10, Num (- 30), NaN, Num (2::int)])) = 10"
proof -
  let ?fs = "oneFile [''L 10, 20, 0, -30, 40, 0'', ''P 500, 600, 0, 0, 0, 0, 2, Bank'',
       ''L nan, 1, 0, 2, 3, 0'']"
  let ?zm = "\<lparr>Name = ''nexus'',
          ZoneMap.Lines = [\<lparr>X1 = Num 10, Y1 = Num 20, Z1 = Num 0, X2 = Num (- 30), Y2 = Num 40, Z2 = Num 0,
                    MapLine.Color = \<lparr>R = 150, G = 150, B = 150, A = 255\<rparr>\<rparr>,
                   \<lparr>X1 = NaN, Y1 = Num 1, Z1 = Num 0, X2 = Num 2, Y2 = Num 3, Z2 = Num 0,
                    MapLine.Color = \<lparr>R = 150, G = 150, B = 150, A = 255\<rparr>\<rparr>],
          Labels = [\<lparr>MapLabel.X = Num 500, MapLabel.Y = Num 600, MapLabel.Z = Num 0,
                     MapLabel.Color = \<lparr>R = 130, G = 130, B = 130, A = 255\<rparr>, Size = 2, Text = ''Bank''\<rparr>],
          MinX = Num (- 30), MaxX = Num 10, MinY = Num (1::int), MaxY = Num 40\<rparr>"
  have lz: "LoadZone pf_lit ?fs ''maps'' ''nexus'' = Inr ?zm"
    by (simp add: loader_eval)
  have ex: "nums (endsX ?zm) = [10, - 30, 2]" by (simp add: endsX_def)
  from bounding_box[OF lz] have "MinX ?zm = Num (Min (set (99999 # nums (endsX ?zm))))"
    by (rule conjunct1)
  then have "Min (set (99999 # [10, - 30, (2::int)])) = - 30" unfolding ex by simp
  then show ?thesis using lz by simp
qed

text \<open>
  Claim C7 as stated fails beyond the sentinel: a single segment with both first
  coordinates 200000 leaves \<open>MinX\<close> at 99999, which is not the minimum over the endpoints.
\<close>

theorem bounding_box_counterexample:
  "LoadZone pf_lit (oneFile [''L 200000, 0, 0, 200000, 5, 0'']) ''maps'' ''nexus''
   = Inr \<lparr>Name = ''nexus'',
          ZoneMap.Lines = [\<lparr>X1 = Num 200000, Y1 = Num 0, Z1 = Num 0, X2 = Num 200000, Y2 = Num 5,
                    Z2 = Num 0, MapLine.Color = \<lparr>R = 150, G = 150, B = 150, A = 255\<rparr>\<rparr>],
          Labels = [], MinX = Num 99999, MaxX = Num 200000, MinY = Num 0, MaxY = Num 5\<rparr>
   \<and> \<not> fle (Num (200000::int)) (Num 99999)"
  by (simp add: loader_eval)

text \<open>An endpoint that is not a number does not move the box and is not inside it.\<close>

lemma bounding_box_nan:
  "LoadZone pf_lit (oneFile [''L nan, 0, 0, nan, 5, 0'']) ''maps'' ''nexus''
   = Inr \<lparr>Name = ''nexus'',
          ZoneMap.Lines = [\<lparr>X1 = NaN, Y1 = Num 0, Z1 = Num 0, X2 = NaN, Y2 = Num 5,
                    Z2 = Num 0, MapLine.Color = \<lparr>R = 150, G = 150, B = 150, A = 255\<rparr>\<rparr>],
          Labels = [], MinX = Num 99999, MaxX = Num (- 99999), MinY = Num 0, MaxY = Num 5\<rparr>
   \<and> \<not> fle (Num (99999::int)) NaN"
  by (simp add: loader_eval)

text \<open>
  The colour of a segment: the default for fewer than nine fields, the substitute gray for
  three zeros, and otherwise the three values reduced to eight bits. With all three
  values in the range 0 to 255 the colour is never black.
\<close>

lemma makeLine_Color:
  "MapLine.Color (makeLine pf parts) =
     (if length parts < 9 then \<lparr>R = 150, G = 150, B = 150, A = 255\<rparr>
      else if parseInt (parts ! 6) = 0 \<and> parseInt (parts ! 7) = 0 \<and> parseInt (parts ! 8) = 0
           then \<lparr>R = 130, G = 130, B = 130, A = 255\<rparr>
           else \<lparr>R = word_of_int (parseInt (parts ! 6)), G = word_of_int (parseInt (parts ! 7)),
                 B = word_of_int (parseInt (parts ! 8)), A = 255\<rparr>)"
  by (simp add: makeLine_def parseColor_def Let_def)

lemma uint8_zero: "0 \<le> k \<Longrightarrow> k \<le> 255 \<Longrightarrow> (word_of_int k :: 8 word) = 0 \<longleftrightarrow> k = 0"
  by (simp add: word_of_int_eq_0_iff zdvd_not_zless dvd_def) presburger

lemma parseColor_in_range:
  assumes "0 \<le> parseInt r" "parseInt r \<le> 255" "0 \<le> parseInt g" "parseInt g \<le> 255"
    "0 \<le> parseInt b" "parseInt b \<le> 255"
  shows "parseColor r g b \<noteq> black"
  using assms uint8_zero[of "parseInt r"] uint8_zero[of "parseInt g"] uint8_zero[of "parseInt b"]
  by (auto simp: parseColor_def black_def Let_def)

text \<open>
  Claim C9 fails on the code. The conversion to \<open>uint8\<close> wraps, so the colour fields
  256, 0, 0 are not all zero and yet the segment is stored with the colour black.
\<close>

theorem parseColor_wraps:
  "parseColor ''256'' ''0'' ''0'' = black
   \<and> LoadZone pf_lit (oneFile [''L 0, 0, 0, 10, 10, 0, 256, 0, 0'']) ''maps'' ''nexus''
     = Inr \<lparr>Name = ''nexus'',
            ZoneMap.Lines = [\<lparr>X1 = Num 0, Y1 = Num 0, Z1 = Num 0, X2 = Num 10, Y2 = Num 10,
                      Z2 = Num 0, MapLine.Color = black\<rparr>],
            Labels = [], MinX = Num 0, MaxX = Num 10, MinY = Num 0, MaxY = Num 10\<rparr>"
  by (simp add: loader_eval black_def)

section \<open>Properties of the Tailer and its queue\<close>

lemma splitLines_line:
  "CHR 0x0A \<notin> set l \<Longrightarrow> splitLines (l @ CHR 0x0A # rest) = l # splitLines rest"
  by (induction l) auto

lemma splitLines_Nil_iff: "splitLines buf = [] \<longleftrightarrow> buf = []"
  by (cases buf) (auto split: list.splits)

lemma terminated_Cons:
  "terminated (c # cs) \<longleftrightarrow> (cs = [] \<and> c = CHR 0x0A) \<or> (cs \<noteq> [] \<and> terminated cs)"
  by (auto simp: terminated_def)

lemma splitLines_append:
  "terminated buf \<Longrightarrow> splitLines (buf @ tl0) = splitLines buf @ splitLines tl0"
proof (induction buf)
  case Nil
  then show ?case by simp
next
  case (Cons c cs)
  show ?case
  proof (cases "cs = []")
    case True
    then show ?thesis using Cons.prems by (simp add: terminated_Cons)
  next
    case False
    then have t: "terminated cs" using Cons.prems by (simp add: terminated_Cons)
    obtain l ls where sl: "splitLines cs = l # ls"
      using False splitLines_Nil_iff[of cs] by (cases "splitLines cs") auto
    show ?thesis using Cons.IH[OF t] by (simp add: sl)
  qed
qed

lemma terminated_append: "terminated (buf @ l @ [CHR 0x0A])"
  by (simp add: terminated_def)

lemma terminated_split:
  assumes "terminated buf" and "buf \<noteq> []"
  shows "\<exists>l rest. buf = l @ CHR 0x0A # rest \<and> CHR 0x0A \<notin> set l \<and> terminated rest"
proof -
  have "CHR 0x0A \<in> set buf" using assms by (metis terminated_def last_in_set)
  then obtain l rest where b: "buf = l @ CHR 0x0A # rest" "CHR 0x0A \<notin> set l"
    by (meson split_list_first)
  have "terminated rest"
  proof (cases "rest = []")
    case True
    then show ?thesis by (simp add: terminated_def)
  next
    case False
    then have "last buf = last rest" unfolding b(1) by simp
    then show ?thesis using assms(1) False b(1) by (simp add: terminated_def)
  qed
  then show ?thesis using b by blast
qed

lemma ReadString_line:
  "CHR 0x0A \<notin> set l \<Longrightarrow> ReadString (l @ CHR 0x0A # rest) = (l @ [CHR 0x0A], False, rest)"
proof -
  assume a: "CHR 0x0A \<notin> set l"
  then have "\<forall>c\<in>set l. notNewline c" by (auto simp: notNewline_def)
  then have "takeWhile notNewline (l @ CHR 0x0A # rest) = l"
    "dropWhile notNewline (l @ CHR 0x0A # rest) = CHR 0x0A # rest"
    by (simp_all add: takeWhile_append2 dropWhile_append2 notNewline_def)
  then show ?thesis by (simp add: ReadString_def)
qed

lemma ReadString_eof:
  "terminated buf \<Longrightarrow> ReadString buf = (line, True, rest) \<Longrightarrow> buf = [] \<and> rest = []"
  by (auto simp: ReadString_def terminated_def split: if_splits) (metis last_in_set)

lemma TrimSpace_line_feed: "TrimSpace (l @ [CHR 0x0A]) = TrimSpace l"
proof (cases "\<forall>c\<in>set l. isSpace c")
  case True
  then have d1: "dropWhile isSpace l = []" by (simp only: dropWhile_eq_Nil_conv)
  have sp: "isSpace (CHR 0x0A)" by (simp add: isSpace_def)
  have "\<forall>c\<in>set (l @ [CHR 0x0A]). isSpace c" using True sp by simp
  then have d2: "dropWhile isSpace (l @ [CHR 0x0A]) = []" by (simp only: dropWhile_eq_Nil_conv)
  show ?thesis unfolding TrimSpace_def d1 d2 ..
next
  case False
  then obtain c where "c \<in> set l" "\<not> isSpace c" by blast
  then have "dropWhile isSpace (l @ [CHR 0x0A]) = dropWhile isSpace l @ [CHR 0x0A]"
    by (rule dropWhile_append1)
  then show ?thesis by (simp add: TrimSpace_def isSpace_def)
qed

lemma delivered_append: "delivered (xs @ ys) = delivered xs @ delivered ys"
  by (simp add: delivered_def)

lemma delivered_Cons:
  "delivered (l # ls) = (if TrimSpace l = [] then delivered ls else TrimSpace l # delivered ls)"
  by (simp add: delivered_def)

lemma terminated_suffix: "terminated (a @ b) \<Longrightarrow> terminated b"
  by (cases "b = []") (simp_all add: terminated_def)

lemma terminated_join: "terminated a \<Longrightarrow> terminated b \<Longrightarrow> terminated (a @ b)"
  by (cases "b = []") (simp_all add: terminated_def)

text \<open>Every step that leaves no unfinished line unread keeps the invariant \<open>fifo\<close>.\<close>

lemma fifo_step:
  assumes "step ops s s'" and "fifo ops e0 s" and "terminated (unread s')"
  shows "fifo ops e0 s'"
  using assms
proof (induction rule: step.induct)
  case (append s bytes)
  have t: "terminated (unread s)" "terminated (written s)" using append.prems(1) by (simp_all add: fifo_def)
  have tb: "terminated bytes" using append.prems(2) terminated_suffix[of "unread s" bytes] by simp
  have "terminated (written s @ bytes)" using t(2) tb by (rule terminated_join)
  then show ?case using append.prems t
    by (simp add: fifo_def inFlight_def splitLines_append delivered_append)
next
  case (read_eof s line rest)
  then have "unread s = []" "rest = []" using ReadString_eof[of "unread s" line rest]
    by (simp_all add: fifo_def)
  then show ?case using read_eof.prems by (simp add: fifo_def inFlight_def)
next
  case (read_blank s line rest)
  have t: "terminated (unread s)" using read_blank.prems by (simp add: fifo_def)
  have "unread s \<noteq> []" using read_blank.hyps(2) by (auto simp: ReadString_def)
  from terminated_split[OF t this] obtain l r where
    u: "unread s = l @ CHR 0x0A # r" "CHR 0x0A \<notin> set l" "terminated r" by blast
  have rs: "line = l @ [CHR 0x0A]" "rest = r"
    using read_blank.hyps(2) ReadString_line[OF u(2), of r] by (simp_all add: u(1))
  have "TrimSpace l = []" using read_blank.hyps(3) by (simp add: rs TrimSpace_line_feed)
  then show ?case using read_blank.prems read_blank.hyps(1)
    by (simp add: fifo_def inFlight_def u rs splitLines_line delivered_Cons)
next
  case (read_line s line rest now)
  have t: "terminated (unread s)" using read_line.prems by (simp add: fifo_def)
  have "unread s \<noteq> []" using read_line.hyps(2) by (auto simp: ReadString_def)
  from terminated_split[OF t this] obtain l r where
    u: "unread s = l @ CHR 0x0A # r" "CHR 0x0A \<notin> set l" "terminated r" by blast
  have rs: "line = l @ [CHR 0x0A]" "rest = r"
    using read_line.hyps(2) ReadString_line[OF u(2), of r] by (simp_all add: u(1))
  have "TrimSpace l \<noteq> []" using read_line.hyps(3) by (simp add: rs TrimSpace_line_feed)
  then show ?case using read_line.prems read_line.hyps(1)
    by (simp add: fifo_def inFlight_def u rs splitLines_line delivered_Cons TrimSpace_line_feed)
next
  case (send s entry)
  then show ?case by (simp add: fifo_def inFlight_def)
next
  case (receive s entry entries)
  then show ?case by (simp add: fifo_def inFlight_def)
qed

lemma fifo_start: "terminated buf \<Longrightarrow> fifo ops (enterLoop ops iz e) (start ops e iz buf)"
  by (simp add: fifo_def start_def inFlight_def)

lemma fifo_reachable:
  assumes "(lineStep ops)\<^sup>*\<^sup>* s s'" and "fifo ops e0 s"
  shows "fifo ops e0 s'"
  using assms
  by (induction rule: rtranclp_induct) (auto simp: lineStep_def intro: fifo_step)

lemma work_lineSteps: "(work ops)\<^sup>*\<^sup>* s s' \<Longrightarrow> (lineStep ops)\<^sup>*\<^sup>* s s'"
  by (induction rule: rtranclp_induct) (auto simp: work_def)

lemma progress:
  assumes "fifo ops e0 s" and "backlog s > 0"
  shows "\<exists>s'. work ops s s' \<and> backlog s' < backlog s"
proof (cases "chan s")
  case (Cons entry entries)
  let ?s' = "s\<lparr>chan := entries, engine := ProcessLine ops (engine s) (Line entry),
                observed := observed s @ [Line entry]\<rparr>"
  have "step ops s ?s'" using Cons by (rule step.receive)
  moreover have "terminated (unread ?s')" using assms(1) by (simp add: fifo_def)
  ultimately have "work ops s ?s'" by (simp add: work_def lineStep_def)
  moreover have "backlog ?s' < backlog s" by (simp add: backlog_def Cons)
  ultimately show ?thesis by blast
next
  case Nil
  show ?thesis
  proof (cases "holding s")
    case (Some entry)
    let ?s' = "s\<lparr>chan := chan s @ [entry], holding := None\<rparr>"
    have "step ops s ?s'" using Some by (rule step.send) (simp add: Nil chanCap_def)
    moreover have "terminated (unread ?s')" using assms(1) by (simp add: fifo_def)
    ultimately have "work ops s ?s'" by (simp add: work_def lineStep_def)
    moreover have "backlog ?s' < backlog s" by (simp add: backlog_def Some)
    ultimately show ?thesis by blast
  next
    case None
    then have ne: "unread s \<noteq> []" using assms(2) Nil by (simp add: backlog_def)
    have t: "terminated (unread s)" using assms(1) by (simp add: fifo_def)
    from terminated_split[OF t ne] obtain l r where
      u: "unread s = l @ CHR 0x0A # r" "CHR 0x0A \<notin> set l" "terminated r" by blast
    have rs: "ReadString (unread s) = (l @ [CHR 0x0A], False, r)"
      unfolding u(1) using u(2) by (rule ReadString_line)
    show ?thesis
    proof (cases "TrimSpace (l @ [CHR 0x0A]) = []")
      case True
      let ?s' = "s\<lparr>unread := r\<rparr>"
      have "step ops s ?s'" using None rs True by (rule step.read_blank)
      then have "work ops s ?s'" using u(3) by (simp add: work_def lineStep_def)
      moreover have "backlog ?s' < backlog s" by (simp add: backlog_def u(1))
      ultimately show ?thesis by blast
    next
      case False
      let ?s' = "s\<lparr>unread := r, holding := Some \<lparr>Line = TrimSpace (l @ [CHR 0x0A]), Time = 0\<rparr>\<rparr>"
      have "step ops s ?s'" using None rs False by (rule step.read_line)
      then have "work ops s ?s'" using u(3) by (simp add: work_def lineStep_def)
      moreover have "backlog ?s' < backlog s" by (simp add: backlog_def u(1) None)
      ultimately show ?thesis by blast
    qed
  qed
qed

lemma drain:
  assumes "fifo ops e0 s"
  shows "\<exists>s'. (work ops)\<^sup>*\<^sup>* s s' \<and> observed s' = delivered (splitLines (written s))"
  using assms
proof (induction "backlog s" arbitrary: s rule: less_induct)
  case less
  show ?case
  proof (cases "backlog s = 0")
    case True
    then have "unread s = []" "holding s = None" "chan s = []"
      by (auto simp: backlog_def split: option.splits)
    then have "observed s = delivered (splitLines (written s))"
      using less.prems by (simp add: fifo_def inFlight_def delivered_def)
    then show ?thesis by blast
  next
    case False
    then obtain s1 where s1: "work ops s s1" "backlog s1 < backlog s"
      using progress[OF less.prems] by auto
    have "fifo ops e0 s1" using s1(1) less.prems
      by (auto simp: work_def lineStep_def intro: fifo_step)
    from less.hyps[OF s1(2) this] obtain s' where
      s': "(work ops)\<^sup>*\<^sup>* s1 s'" "observed s' = delivered (splitLines (written s1))" by blast
    have "written s1 = written s" using s1(1) by (simp add: work_def)
    moreover have "(work ops)\<^sup>*\<^sup>* s s'" using s1(1) s'(1) by (rule converse_rtranclp_into_rtranclp)
    ultimately show ?thesis using s'(2) by auto
  qed
qed

text \<open>
  As long as the reader never meets an unfinished line, the lines observed by the engine,
  followed by the lines in the queue, the line being sent and the non-empty lines still
  unread, are the non-empty lines of the file in file order; the queue stays within its
  capacity, the engine is in the state that \<open>ProcessLines\<close> reaches on the observed lines,
  and producer and consumer can go on until every non-empty line has been observed.
\<close>

lemma whole_line_delivery:
  assumes "terminated buf" and "(lineStep ops)\<^sup>*\<^sup>* (start ops e initialZone buf) s"
  shows "observed s @ inFlight s = delivered (splitLines (written s))
       \<and> length (chan s) \<le> chanCap
       \<and> engine s = ProcessLines ops e initialZone (observed s)
       \<and> (\<exists>s'. (work ops)\<^sup>*\<^sup>* s s' \<and> observed s' = delivered (splitLines (written s))
                \<and> engine s' = ProcessLines ops e initialZone (delivered (splitLines (written s))))"
proof -
  let ?e0 = "enterLoop ops initialZone e"
  have f: "fifo ops ?e0 s"
    using assms(2) fifo_start[OF assms(1)] by (rule fifo_reachable)
  from drain[OF f] obtain s' where
    s': "(work ops)\<^sup>*\<^sup>* s s'" "observed s' = delivered (splitLines (written s))" by blast
  have "(lineStep ops)\<^sup>*\<^sup>* s s'" using s'(1) by (rule work_lineSteps)
  then have "fifo ops ?e0 s'" using f by (rule fifo_reachable)
  then have "engine s' = ProcessLines ops e initialZone (delivered (splitLines (written s)))"
    by (simp add: fifo_def ProcessLines_def s'(2))
  then show ?thesis using f s' by (auto simp: fifo_def ProcessLines_def)
qed

lemma six_steps:
  "step ops a b \<Longrightarrow> step ops b c \<Longrightarrow> step ops c d \<Longrightarrow> step ops d e \<Longrightarrow> step ops e f
     \<Longrightarrow> step ops f g \<Longrightarrow> (step ops)\<^sup>*\<^sup>* a g"
  by (meson rtranclp.rtrancl_into_rtrancl rtranclp.rtrancl_refl)

text \<open>
  Text without a line feed is returned by \<open>ReadString\<close> together with \<open>io.EOF\<close>, and
  \<open>pollAndRead\<close> drops it.
\<close>

lemma ReadString_partial: "ReadString ''You have ent'' = (''You have ent'', True, [])"
  by (simp add: ReadString_def)

section \<open>Claim about the Tailer and the State Engine\<close>

text \<open>
  Claim C8 fails on the code. The game writes \<open>You have ent\<close>; the Tailer reads, gets this
  text together with \<open>io.EOF\<close> and drops it; the game writes the rest of the line and the
  line feed; the Tailer reads and sends \<open>ered The Nexus.\<close>, and the engine receives it.
  Nothing is left unread or in flight: the only line of the file,
  \<open>You have entered The Nexus.\<close>, has not been delivered, the engine has observed a line
  that the file does not hold, and it has missed the zone that the line would have set.
\<close>

theorem partial_write_dropped:
  "(step lit_ops)\<^sup>*\<^sup>* (start lit_ops (NewEngine lit_ops) [] [])
      \<lparr>written = ''You have entered The Nexus.'' @ [CHR 0x0A], unread = [], chan = [],
       holding = None,
       engine = ProcessLine lit_ops (enterLoop lit_ops [] (NewEngine lit_ops)) ''ered The Nexus.'',
       observed = [''ered The Nexus.'']\<rparr>
   \<and> delivered (splitLines (''You have entered The Nexus.'' @ [CHR 0x0A]))
       = [''You have entered The Nexus.'']
   \<and> Zone (CurrentState (ProcessLine lit_ops (enterLoop lit_ops [] (NewEngine lit_ops))
               ''ered The Nexus.'')) = []
   \<and> Zone (CurrentState (ProcessLines lit_ops (NewEngine lit_ops) []
               [''You have entered The Nexus.''])) = ''The Nexus''"
proof -
  let ?s0 = "start lit_ops (NewEngine lit_ops) [] []"
  let ?s1 = "?s0\<lparr>written := written ?s0 @ ''You have ent'', unread := unread ?s0 @ ''You have ent''\<rparr>"
  let ?s2 = "?s1\<lparr>unread := []\<rparr>"
  let ?s3 = "?s2\<lparr>written := written ?s2 @ ''ered The Nexus.'' @ [CHR 0x0A],
                 unread := unread ?s2 @ ''ered The Nexus.'' @ [CHR 0x0A]\<rparr>"
  let ?entry = "\<lparr>Line = TrimSpace (''ered The Nexus.'' @ [CHR 0x0A]), Time = 0\<rparr>"
  let ?s4 = "?s3\<lparr>unread := [], holding := Some ?entry\<rparr>"
  let ?s5 = "?s4\<lparr>chan := chan ?s4 @ [?entry], holding := None\<rparr>"
  let ?s6 = "?s5\<lparr>chan := [], engine := ProcessLine lit_ops (engine ?s5) (Line ?entry),
                 observed := observed ?s5 @ [Line ?entry]\<rparr>"
  have trim: "TrimSpace (''ered The Nexus.'' @ [CHR 0x0A]) = ''ered The Nexus.''"
    by (simp add: TrimSpace_def isSpace_def)
  have a1: "step lit_ops ?s0 ?s1" by (rule step.append)
  have a2: "step lit_ops ?s1 ?s2"
    by (rule step.read_eof[where line = "''You have ent''"])
      (simp_all add: start_def ReadString_def)
  have a3: "step lit_ops ?s2 ?s3" by (rule step.append)
  have a4: "step lit_ops ?s3 ?s4"
    by (rule step.read_line[where line = "''ered The Nexus.'' @ [CHR 0x0A]"])
      (insert trim, simp_all add: start_def ReadString_def notNewline_def)
  have a5: "step lit_ops ?s4 ?s5"
    by (rule step.send) (simp_all add: start_def chanCap_def)
  have a6: "step lit_ops ?s5 ?s6"
    by (rule step.receive) (simp add: start_def)
  have run: "(step lit_ops)\<^sup>*\<^sup>* ?s0 ?s6"
    using a1 a2 a3 a4 a5 a6 by (rule six_steps)
  have s6: "?s6 = \<lparr>written = ''You have entered The Nexus.'' @ [CHR 0x0A], unread = [], chan = [],
       holding = None,
       engine = ProcessLine lit_ops (enterLoop lit_ops [] (NewEngine lit_ops)) ''ered The Nexus.'',
       observed = [''ered The Nexus.'']\<rparr>"
    using trim by (simp add: start_def)
  have d: "delivered (splitLines (''You have entered The Nexus.'' @ [CHR 0x0A]))
             = [''You have entered The Nexus.'']"
    by (simp add: delivered_def TrimSpace_def isSpace_def)
  have z1: "Zone (CurrentState (ProcessLine lit_ops (enterLoop lit_ops [] (NewEngine lit_ops))
               ''ered The Nexus.'')) = []"
    by (simp add: engine_eval)
  have z2: "Zone (CurrentState (ProcessLines lit_ops (NewEngine lit_ops) []
               [''You have entered The Nexus.''])) = ''The Nexus''"
    by (simp add: engine_eval)
  show ?thesis using run unfolding s6 by (intro conjI d z1 z2)
qed

end
